theory Spec2Isabelle
  imports Main "HOL-Library.Word"
begin

section \<open>The rotn encryptor of \<open>ext/encryptors/rotn/rotn_encrypt.c\<close>\<close>

text \<open>
  A shallow embedding of the WiredTiger example encryptor: the two byte transforms
  (\<open>do_rotate\<close>, \<open>do_shift\<close>), the codec entry points (\<open>rotn_encrypt\<close>,
  \<open>rotn_decrypt\<close>, \<open>rotn_sizing\<close>) and the constructor \<open>rotn_customize\<close>.

  Machine types are those of an LP64 platform: \<open>uint8_t\<close> and \<open>unsigned char\<close> are
  8-bit words, \<open>uint32_t\<close> is a 32-bit word and \<open>size_t\<close> a 64-bit word, all with
  wrap-around arithmetic. A buffer is the list of bytes that can be accessed through the
  pointer; \<open>&buf[i]\<close> is \<open>drop i buf\<close>. An access outside the list is undefined
  behaviour in C and is the outcome \<open>Undefined\<close> here; a loop that never ends is the
  value \<open>None\<close>.
\<close>

subsection \<open>Machine types and outcomes\<close>

type_synonym byte = "8 word"
type_synonym uint32 = "32 word"
type_synonym size_t = "64 word"

datatype 'a exec = Done 'a | Undefined

datatype errcode = EPERM | ENOMEM | EINVAL

text \<open>The \<open>int\<close> a function returns: \<open>Inr ()\<close> is 0, \<open>Inl e\<close> the error code.\<close>

type_synonym ret = "errcode + unit"

definition then_exec :: "'a exec option \<Rightarrow> ('a \<Rightarrow> 'b exec option) \<Rightarrow> 'b exec option" where
  "then_exec m f = (case m of None \<Rightarrow> None | Some Undefined \<Rightarrow> Some Undefined | Some (Done x) \<Rightarrow> f x)"

definition CHKSUM_LEN :: nat where
  "CHKSUM_LEN = 4"

definition IV_LEN :: nat where
  "IV_LEN = 16"

subsection \<open>The C library: character classes, \<open>atoi\<close>, \<open>memcpy\<close>, the allocator\<close>

text \<open>The classification functions of \<open><ctype.h> \<close> in the "C" locale.\<close>

definition islower :: "byte \<Rightarrow> bool" where
  "islower c = (0x61 \<le> c \<and> c \<le> 0x7A)"

definition isupper :: "byte \<Rightarrow> bool" where
  "isupper c = (0x41 \<le> c \<and> c \<le> 0x5A)"

definition isalpha :: "byte \<Rightarrow> bool" where
  "isalpha c = (isupper c \<or> islower c)"

definition isdigit :: "byte \<Rightarrow> bool" where
  "isdigit c = (0x30 \<le> c \<and> c \<le> 0x39)"

definition isspace :: "byte \<Rightarrow> bool" where
  "isspace c = (c = 0x20 \<or> (0x09 \<le> c \<and> c \<le> 0x0D))"

text \<open>
  \<open>atoi\<close>: white space, an optional sign, then decimal digits up to the first byte that
  is not a digit; 0 when there is no digit. A value outside the range of \<open>int\<close> is
  undefined behaviour (\<open>None\<close>). A string is the bytes before its terminating NUL.
\<close>

fun atoi_digits :: "int \<Rightarrow> string \<Rightarrow> int" where
  "atoi_digits acc [] = acc"
| "atoi_digits acc (c # cs) =
     (if isdigit (of_char c) then atoi_digits (10 * acc + (of_char c - 0x30)) cs else acc)"

definition atoi :: "string \<Rightarrow> int option" where
  "atoi s =
     (let t = dropWhile (\<lambda>c. isspace (of_char c)) s;
          v = (case t of
                 [] \<Rightarrow> 0
               | c # cs \<Rightarrow>
                   if c = CHR ''-'' then - atoi_digits 0 cs
                   else if c = CHR ''+'' then atoi_digits 0 cs
                   else atoi_digits 0 t)
      in if - (2 ^ 31) \<le> v \<and> v < 2 ^ 31 then Some v else None)"

text \<open>\<open>memcpy d s n\<close> overwrites the first \<open>n\<close> bytes of \<open>d\<close> with those of \<open>s\<close>.\<close>

definition memcpy :: "byte list \<Rightarrow> byte list \<Rightarrow> size_t \<Rightarrow> byte list exec" where
  "memcpy d s n =
     (if unat n \<le> length d \<and> unat n \<le> length s then Done (take (unat n) s @ drop (unat n) d)
      else Undefined)"

text \<open>
  \<open>strncpy (p, s, n + 1); p[n] = '\0'\<close> leaves in \<open>p\<close> the string made of the first
  \<open>n\<close> bytes of \<open>s\<close>.
\<close>

definition strncpy :: "string \<Rightarrow> size_t \<Rightarrow> string" where
  "strncpy s n = take (unat n) s"

text \<open>
  The allocator. The \<open>k\<close>-th request of the run succeeds when \<open>mem k\<close> holds and then
  returns the fresh address \<open>k\<close>; a failed request returns NULL (\<open>None\<close>) and sets
  \<open>errno\<close> to \<open>ENOMEM\<close>. \<open>live\<close> lists the blocks allocated and not yet freed.
  A pointer to a block is its address with its contents, NULL is \<open>None\<close>.
\<close>

record libc =
  requests :: nat
  live :: "nat list"
  errno :: errcode

type_synonym 'a ptr = "(nat \<times> 'a) option"

definition malloc :: "(nat \<Rightarrow> bool) \<Rightarrow> libc \<Rightarrow> nat option \<times> libc" where
  "malloc mem h =
     (let k = requests h in
      if mem k then (Some k, h\<lparr>requests := Suc k, live := k # live h\<rparr>)
      else (None, h\<lparr>requests := Suc k, errno := ENOMEM\<rparr>))"

definition free :: "nat \<Rightarrow> libc \<Rightarrow> libc" where
  "free a h = h\<lparr>live := remove1 a (live h)\<rparr>"

definition free_ptr :: "'a ptr \<Rightarrow> libc \<Rightarrow> libc" where
  "free_ptr p h = (case p of None \<Rightarrow> h | Some (a, _) \<Rightarrow> free a h)"

subsection \<open>The encryptor structure\<close>

text \<open>
  \<open>ROTN_ENCRYPTOR\<close> without its table of entry points and its handle to the host.
\<close>

record rotn_encryptor =
  rot_N :: uint32
  keyid :: "string ptr"
  secretkey :: "string ptr"
  shift_forw :: "byte list ptr"
  shift_back :: "byte list ptr"
  shift_len :: size_t

text \<open>
  The structure that \<open>wiredtiger_extension_init\<close> registers: \<open>calloc\<close> fills it with
  zeros, and only the entry points and the host handle are set.
\<close>

definition registered :: rotn_encryptor where
  "registered = \<lparr>rot_N = 0, keyid = None, secretkey = None,
                 shift_forw = None, shift_back = None, shift_len = 0\<rparr>"

text \<open>What an entry point changes besides its return value.\<close>

record call_state =
  dst :: "byte list"
  result_len :: size_t
  rand_calls :: nat
  stderr :: "string list"

subsection \<open>Checksum and initialization vector\<close>

text \<open>
  \<open>random ()\<close> is a parameter \<open>rnd\<close>: its \<open>k\<close>-th call returns \<open>rnd k\<close>, and the state
  counts the calls.
\<close>

definition make_cksum :: "(nat \<Rightarrow> int) \<Rightarrow> nat \<Rightarrow> byte list \<Rightarrow> (byte list \<times> nat) exec" where
  "make_cksum rnd calls d =
     (if length d < CHKSUM_LEN then Undefined
      else Done (fold (\<lambda>i b. b[i := word_of_int (rnd (calls + i))]) [0..<CHKSUM_LEN] d,
                 calls + CHKSUM_LEN))"

definition make_iv :: "(nat \<Rightarrow> int) \<Rightarrow> nat \<Rightarrow> byte list \<Rightarrow> (byte list \<times> nat) exec" where
  "make_iv rnd calls d =
     (if length d < IV_LEN then Undefined
      else Done (fold (\<lambda>i b. b[i := word_of_int (rnd (calls + i))]) [0..<IV_LEN] d,
                 calls + IV_LEN))"

subsection \<open>The transforms\<close>

text \<open>
  The body of the loop of \<open>do_rotate\<close>. In \<open>buf[i] - 'a' + rotn\<close> the difference is an
  \<open>int\<close> that is not negative and the sum is taken in \<open>uint32_t\<close>; the assignment
  truncates to a byte.
\<close>

definition rotate_byte :: "uint32 \<Rightarrow> byte \<Rightarrow> byte" where
  "rotate_byte rotn c =
     (if isalpha c then
        (if islower c then ucast ((ucast c - 0x61 + rotn) mod 26 + 0x61)
         else ucast ((ucast c - 0x41 + rotn) mod 26 + 0x41))
      else c)"

text \<open>
  The counter \<open>i\<close> is a \<open>uint32_t\<close> compared with a \<open>size_t\<close>: it wraps to 0 after
  \<open>2 ^ 32 - 1\<close>, so the loop does not end when \<open>len\<close> is \<open>2 ^ 32\<close> or more.
\<close>

partial_function (option) do_rotate_loop ::
  "byte list \<Rightarrow> size_t \<Rightarrow> uint32 \<Rightarrow> uint32 \<Rightarrow> byte list exec option" where
  "do_rotate_loop buf len rotn i =
     (if ucast i < len then
        (if unat i < length buf then
           do_rotate_loop (buf[unat i := rotate_byte rotn (buf ! unat i)]) len rotn (i + 1)
         else Some Undefined)
      else Some (Done buf))"

definition do_rotate :: "byte list \<Rightarrow> size_t \<Rightarrow> uint32 \<Rightarrow> byte list exec option" where
  "do_rotate buf len rotn = do_rotate_loop buf len rotn 0"

text \<open>
  \<open>do_shift\<close>: \<open>buf[i] += shift[i % shiftlen]\<close>, the remainder taken in \<open>size_t\<close>.
\<close>

partial_function (option) do_shift_loop ::
  "byte list \<Rightarrow> size_t \<Rightarrow> byte list \<Rightarrow> size_t \<Rightarrow> uint32 \<Rightarrow> byte list exec option" where
  "do_shift_loop buf len shift shiftlen i =
     (if ucast i < len then
        (if shiftlen \<noteq> 0 \<and> unat i < length buf \<and> unat (ucast i mod shiftlen) < length shift then
           do_shift_loop (buf[unat i := buf ! unat i + shift ! unat (ucast i mod shiftlen)])
             len shift shiftlen (i + 1)
         else Some Undefined)
      else Some (Done buf))"

definition do_shift :: "byte list \<Rightarrow> size_t \<Rightarrow> byte list \<Rightarrow> size_t \<Rightarrow> byte list exec option" where
  "do_shift buf len shift shiftlen = do_shift_loop buf len shift shiftlen 0"

text \<open>The bytes a table pointer gives access to: none through NULL.\<close>

definition table :: "byte list ptr \<Rightarrow> byte list" where
  "table p = (case p of None \<Rightarrow> [] | Some (_, t) \<Rightarrow> t)"

subsection \<open>Encrypt, decrypt, sizing\<close>

definition rotn_encrypt ::
  "(nat \<Rightarrow> int) \<Rightarrow> rotn_encryptor \<Rightarrow> byte list option \<Rightarrow> size_t \<Rightarrow> size_t \<Rightarrow> call_state
     \<Rightarrow> (ret \<times> call_state) exec option" where
  "rotn_encrypt rnd e src src_len dst_len s =
     (case src of
        None \<Rightarrow> Some (Done (Inr (), s))
      | Some sbuf \<Rightarrow>
          if dst_len < src_len + of_nat CHKSUM_LEN + of_nat IV_LEN then Some (Done (Inl ENOMEM, s))
          else
            then_exec (Some (memcpy (drop (CHKSUM_LEN + IV_LEN) (dst s)) sbuf src_len)) (\<lambda>text.
            then_exec (if shift_len e = 0 then do_rotate text src_len (rot_N e)
                       else do_shift text src_len (table (shift_forw e)) (shift_len e)) (\<lambda>text'.
            then_exec (Some (make_cksum rnd (rand_calls s)
                               (take (CHKSUM_LEN + IV_LEN) (dst s) @ text'))) (\<lambda>(d1, c1).
            then_exec (Some (make_iv rnd c1 (drop CHKSUM_LEN d1))) (\<lambda>(d2, c2).
            Some (Done (Inr (), s\<lparr>dst := take CHKSUM_LEN d1 @ d2, result_len := dst_len,
                                    rand_calls := c2\<rparr>)))))))"

definition rotn_decrypt ::
  "rotn_encryptor \<Rightarrow> byte list option \<Rightarrow> size_t \<Rightarrow> size_t \<Rightarrow> call_state
     \<Rightarrow> (ret \<times> call_state) exec option" where
  "rotn_decrypt e src src_len dst_len s =
     (case src of
        None \<Rightarrow> Some (Done (Inr (), s))
      | Some sbuf \<Rightarrow>
          if dst_len < src_len - of_nat CHKSUM_LEN - of_nat IV_LEN then
            Some (Done (Inl ENOMEM, s\<lparr>stderr := stderr s @ [''Rotate: ENOMEM ERROR'' @ [CHR 0x0A]]\<rparr>))
          else
            then_exec (Some (memcpy (dst s) (drop (CHKSUM_LEN + IV_LEN) sbuf) dst_len)) (\<lambda>d.
            then_exec (if shift_len e = 0 then do_rotate d dst_len (26 - rot_N e)
                       else do_shift d dst_len (table (shift_back e)) (shift_len e)) (\<lambda>d'.
            Some (Done (Inr (), s\<lparr>dst := d', result_len := dst_len\<rparr>)))))"

text \<open>\<open>rotn_sizing\<close> stores the header size in \<open>*expansion_constantp\<close> and returns 0.\<close>

definition rotn_sizing :: "rotn_encryptor \<Rightarrow> size_t \<Rightarrow> ret \<times> size_t" where
  "rotn_sizing e expansion_constant = (Inr (), of_nat CHKSUM_LEN + of_nat IV_LEN)"

subsection \<open>Customize\<close>

text \<open>
  A \<open>WT_CONFIG_ITEM\<close>: \<open>item_str\<close> is the string that starts at the \<open>str\<close> pointer (it
  is not cut at \<open>len\<close>), \<open>item_len\<close> the length of the value. The host's \<open>config_get\<close>
  is a map from the key to the item it fills in; \<open>None\<close> is a return value other than 0.
\<close>

record config_item =
  item_str :: string
  item_len :: size_t

text \<open>
  The bytes \<open>secret.str[0]\<close>, ..., \<open>secret.str[len - 1]\<close> that the table loop reads.
  When the string is shorter than \<open>len\<close> the loop meets its terminating NUL, which is
  not a letter, and leaves.
\<close>

definition secret_bytes :: "config_item \<Rightarrow> byte list" where
  "secret_bytes sec =
     map of_char (take (unat (item_len sec)) (item_str sec))
       @ (if length (item_str sec) < unat (item_len sec) then [0] else [])"

text \<open>
  The loop that fills \<open>shift_forw\<close> and \<open>shift_back\<close>; \<open>None\<close> is the jump to \<open>err\<close>
  with \<open>EINVAL\<close> at a byte that is not a letter. \<open>base\<close> is an \<open>unsigned char\<close>, so
  \<open>base -= keyid_val\<close> and both differences are taken modulo 256.
\<close>

fun shift_tables :: "int \<Rightarrow> byte list \<Rightarrow> (byte list \<times> byte list) option" where
  "shift_tables keyid_val [] = Some ([], [])"
| "shift_tables keyid_val (c # cs) =
     (if islower c \<or> isupper c then
        (let base = (if islower c then 0x61 else 0x41) - word_of_int keyid_val in
         case shift_tables keyid_val cs of
           None \<Rightarrow> None
         | Some (forw, back) \<Rightarrow> Some ((c - base) # forw, (base - c) # back))
      else None)"

text \<open>The code after the label \<open>err\<close>; \<open>a\<close> is the address of the new structure.\<close>

definition customize_err :: "nat \<Rightarrow> rotn_encryptor \<Rightarrow> libc \<Rightarrow> libc" where
  "customize_err a e h =
     free a (free_ptr (shift_back e) (free_ptr (shift_forw e)
       (free_ptr (secretkey e) (free_ptr (keyid e) h))))"

text \<open>
  \<open>rotn_customize\<close> in the order of the source, last block first. \<open>a\<close> is the
  address of the new structure, \<open>e\<close> its contents so far, \<open>keyid_val\<close> the value
  that \<open>atoi\<close> returned. The result is the error code, or the address and the
  contents of the new structure (what \<open>*customp\<close> receives).

  The block that stashes the secret key and builds the tables, and the end of the
  function.
\<close>

definition customize_secret ::
  "(nat \<Rightarrow> bool) \<Rightarrow> (string \<rightharpoonup> config_item) \<Rightarrow> nat \<Rightarrow> int \<Rightarrow> rotn_encryptor \<Rightarrow> libc
     \<Rightarrow> ((errcode + nat \<times> rotn_encryptor) \<times> libc) exec" where
  "customize_secret mem config_get a keyid_val e h =
     (case config_get ''secretkey'' of
        None \<Rightarrow> Done (Inr (a, e\<lparr>rot_N := word_of_int keyid_val\<rparr>), h)
      | Some sec \<Rightarrow>
          if item_len sec = 0 then Done (Inr (a, e\<lparr>rot_N := word_of_int keyid_val\<rparr>), h)
          else
            (case malloc mem h of
               (None, h1) \<Rightarrow> Done (Inl EPERM, customize_err a e h1)
             | (Some ps, h1) \<Rightarrow>
                 let e1 = e\<lparr>secretkey := Some (ps, [])\<rparr> in
                 (case malloc mem h1 of
                    (None, h2) \<Rightarrow> Done (Inl EPERM, customize_err a (e1\<lparr>shift_forw := None\<rparr>) h2)
                  | (Some pf, h2) \<Rightarrow>
                      let e2 = e1\<lparr>shift_forw := Some (pf, [])\<rparr> in
                      (case malloc mem h2 of
                         (None, h3) \<Rightarrow>
                           Done (Inl EPERM, customize_err a (e2\<lparr>shift_back := None\<rparr>) h3)
                       | (Some pb, h3) \<Rightarrow>
                           let e3 = e2\<lparr>shift_back := Some (pb, [])\<rparr> in
                           (case shift_tables keyid_val (secret_bytes sec) of
                              None \<Rightarrow> Done (Inl EPERM, customize_err a e3 h3)
                            | Some (forw, back) \<Rightarrow>
                                if item_len sec + 1 = 0 then Undefined
                                else
                                  Done (Inr (a, e3\<lparr>shift_forw := Some (pf, forw),
                                                   shift_back := Some (pb, back),
                                                   shift_len := item_len sec,
                                                   secretkey := Some (ps, strncpy (item_str sec) (item_len sec)),
                                                   rot_N := word_of_int keyid_val\<rparr>), h3))))))"

text \<open>The block that stashes the key id, followed by the rest.\<close>

definition customize_keyid ::
  "(nat \<Rightarrow> bool) \<Rightarrow> (string \<rightharpoonup> config_item) \<Rightarrow> nat \<Rightarrow> int \<Rightarrow> rotn_encryptor \<Rightarrow> libc
     \<Rightarrow> ((errcode + nat \<times> rotn_encryptor) \<times> libc) exec" where
  "customize_keyid mem config_get a keyid_val e h =
     (case config_get ''keyid'' of
        None \<Rightarrow> customize_secret mem config_get a keyid_val e h
      | Some kid \<Rightarrow>
          if item_len kid = 0 then customize_secret mem config_get a keyid_val e h
          else
            (case malloc mem h of
               (None, h1) \<Rightarrow> Done (Inl EPERM, customize_err a e h1)
             | (Some p, h1) \<Rightarrow>
                 if item_len kid + 1 = 0 then Undefined
                 else
                   customize_secret mem config_get a keyid_val
                     (e\<lparr>keyid := Some (p, strncpy (item_str kid) (item_len kid))\<rparr>) h1))"

text \<open>
  The beginning of the function. The local \<open>keyid\<close> is not initialized when
  \<open>atoi (keyid.str)\<close> reads it, the call of \<open>config_get\<close> that fills it comes after:
  \<open>stack_str\<close> is the string that the pointer found there leads to, \<open>None\<close> when it
  leads to none.
\<close>

definition rotn_customize ::
  "(nat \<Rightarrow> bool) \<Rightarrow> rotn_encryptor \<Rightarrow> (string \<rightharpoonup> config_item) \<Rightarrow> string option \<Rightarrow> libc
     \<Rightarrow> ((errcode + nat \<times> rotn_encryptor) \<times> libc) exec" where
  "rotn_customize mem orig config_get stack_str h =
     (case malloc mem h of
        (None, h0) \<Rightarrow> Done (Inl (errno h0), h0)
      | (Some a, h0) \<Rightarrow>
          let e = orig\<lparr>keyid := None, secretkey := None\<rparr> in
          (case stack_str of
             None \<Rightarrow> Undefined
           | Some garbage \<Rightarrow>
               (case atoi garbage of
                  None \<Rightarrow> Undefined
                | Some keyid_val \<Rightarrow>
                    if keyid_val < 0 then Done (Inl EPERM, customize_err a e h0)
                    else customize_keyid mem config_get a keyid_val e h0)))"

section \<open>Properties\<close>

text \<open>The two loops are evaluated through their recursion equations.\<close>

declare do_rotate_loop.simps [code]
declare do_shift_loop.simps [code]

subsection \<open>Words and casts\<close>

lemma unat_ucast_8_32: "unat (ucast (c::byte) :: uint32) = unat c"
proof -
  have "unat c < 2 ^ 8" using unsigned_less [of c, where 'a = nat] by simp
  then have "unat c < 2 ^ 32" by simp
  then show ?thesis by (simp add: unsigned_ucast_eq take_bit_nat_eq_self)
qed

lemma unat_ucast_32_8: "unat (ucast (w::uint32) :: byte) = unat w mod 256"
  by (simp add: unsigned_ucast_eq take_bit_eq_mod)

lemma islower_unat: "islower c = (97 \<le> unat c \<and> unat c \<le> 122)"
  by (simp add: islower_def word_le_nat_alt)

lemma isupper_unat: "isupper c = (65 \<le> unat c \<and> unat c \<le> 90)"
  by (simp add: isupper_def word_le_nat_alt)

lemma unat_letter_offset:
  assumes "b \<le> unat (c::byte)" "b < 256"
  shows "unat ((ucast c :: uint32) - of_nat b + rotn) = (unat c - b + unat rotn) mod 2 ^ 32"
proof -
  have c: "unat c < 256" using unsigned_less [of c, where 'a = nat] by simp
  have "unat (of_nat b :: uint32) = b" using assms by (simp add: unat_of_nat)
  then have "unat ((ucast c :: uint32) - of_nat b) = unat c - b"
    using assms by (simp add: unat_sub word_le_nat_alt unat_ucast_8_32)
  then show ?thesis by (simp add: unat_word_ariths)
qed

lemma unat_rotate_lower:
  assumes "islower c"
  shows "unat (rotate_byte rotn c) = (unat c - 97 + unat rotn) mod 2 ^ 32 mod 26 + 97"
proof -
  let ?w = "(ucast c - 0x61 + rotn :: uint32) mod 26"
  have a: "unat (ucast c - 0x61 + rotn :: uint32) = (unat c - 97 + unat rotn) mod 2 ^ 32"
    using unat_letter_offset [of 97 c rotn] assms by (simp add: islower_unat)
  have m: "unat ?w = (unat c - 97 + unat rotn) mod 2 ^ 32 mod 26"
    by (simp add: unat_mod a)
  then have "unat ?w < 26" by simp
  then have "unat (?w + 0x61) = unat ?w + 97" by (simp add: unat_word_ariths)
  moreover have "rotate_byte rotn c = ucast (?w + 0x61)"
    using assms by (simp add: rotate_byte_def isalpha_def)
  ultimately show ?thesis using m \<open>unat ?w < 26\<close> by (simp add: unat_ucast_32_8)
qed

lemma unat_rotate_upper:
  assumes "isupper c"
  shows "unat (rotate_byte rotn c) = (unat c - 65 + unat rotn) mod 2 ^ 32 mod 26 + 65"
proof -
  let ?w = "(ucast c - 0x41 + rotn :: uint32) mod 26"
  have nl: "\<not> islower c" using assms by (simp add: islower_unat isupper_unat)
  have a: "unat (ucast c - 0x41 + rotn :: uint32) = (unat c - 65 + unat rotn) mod 2 ^ 32"
    using unat_letter_offset [of 65 c rotn] assms by (simp add: isupper_unat)
  have m: "unat ?w = (unat c - 65 + unat rotn) mod 2 ^ 32 mod 26"
    by (simp add: unat_mod a)
  then have "unat ?w < 26" by simp
  then have "unat (?w + 0x41) = unat ?w + 65" by (simp add: unat_word_ariths)
  moreover have "rotate_byte rotn c = ucast (?w + 0x41)"
    using assms nl by (simp add: rotate_byte_def isalpha_def)
  ultimately show ?thesis using m \<open>unat ?w < 26\<close> by (simp add: unat_ucast_32_8)
qed

subsection \<open>The rotation of one byte\<close>

lemma rotate_byte_lower: "islower c \<Longrightarrow> islower (rotate_byte rotn c)"
proof -
  assume a: "islower c"
  have "(unat c - 97 + unat rotn) mod 2 ^ 32 mod 26 < 26" by simp
  then show ?thesis unfolding islower_unat [of "rotate_byte rotn c"] unat_rotate_lower [OF a] by linarith
qed

lemma rotate_byte_upper: "isupper c \<Longrightarrow> isupper (rotate_byte rotn c)"
proof -
  assume a: "isupper c"
  have "(unat c - 65 + unat rotn) mod 2 ^ 32 mod 26 < 26" by simp
  then show ?thesis unfolding isupper_unat [of "rotate_byte rotn c"] unat_rotate_upper [OF a] by linarith
qed

lemma rotate_byte_other: "\<not> isalpha c \<Longrightarrow> rotate_byte rotn c = c"
  by (simp add: rotate_byte_def)

lemma unat_ucast_up: "unat (ucast (i::uint32) :: size_t) = unat i"
proof -
  have "unat i < 2 ^ 32" using unsigned_less [of i, where 'a = nat] by simp
  then have "unat i < 2 ^ 64" by simp
  then show ?thesis by (simp add: unsigned_ucast_eq take_bit_nat_eq_self)
qed

lemma counter_less_iff: "((ucast (i::uint32) :: size_t) < len) = (unat i < unat len)"
  by (simp add: word_less_nat_alt unat_ucast_up)

lemma unat_counter_Suc: "unat (i::uint32) < n \<Longrightarrow> n < 2 ^ 32 \<Longrightarrow> unat (i + 1) = Suc (unat i)"
  by (simp add: unat_word_ariths)

lemma rotate_inverse_arith:
  assumes x: "x < 26" and n: "n \<le> 25"
  shows "((x + n) mod 26 + (26 - n)) mod 26 = (x::nat)"
proof (cases "x + n < 26")
  case True
  then have "(x + n) mod 26 + (26 - n) = x + 26" using n by simp
  then show ?thesis using x by simp
next
  case False
  then have "(x + n) mod 26 = x + n - 26" using x n by (simp add: mod_if)
  then have "(x + n) mod 26 + (26 - n) = x" using False n by simp
  then show ?thesis using x by simp
qed

lemma unat_26_minus: "unat (n::uint32) \<le> 25 \<Longrightarrow> unat (26 - n) = 26 - unat n"
  by (simp add: unat_sub word_le_nat_alt)

lemma rotate_byte_inverse:
  assumes n: "unat rotn \<le> 25"
  shows "rotate_byte (26 - rotn) (rotate_byte rotn c) = c"
proof -
  have m: "unat (26 - rotn) = 26 - unat rotn" using n by (rule unat_26_minus)
  have c: "unat c < 256" using unsigned_less [of c, where 'a = nat] by simp
  consider (lower) "islower c" | (upper) "isupper c" | (other) "\<not> isalpha c"
    by (auto simp: isalpha_def)
  then show ?thesis
  proof cases
    case lower
    then have x: "unat c - 97 < 26" "97 \<le> unat c" unfolding islower_unat by linarith+
    have 1: "unat (rotate_byte rotn c) = (unat c - 97 + unat rotn) mod 26 + 97"
      using n c by (simp add: unat_rotate_lower [OF lower])
    have "unat (rotate_byte (26 - rotn) (rotate_byte rotn c))
            = ((unat c - 97 + unat rotn) mod 26 + (26 - unat rotn)) mod 26 + 97"
      using n by (simp add: unat_rotate_lower [OF rotate_byte_lower [OF lower]] 1 m)
    also have "\<dots> = unat c" using rotate_inverse_arith [OF x(1) n] x(2) by simp
    finally show ?thesis by (simp add: word_unat_eq_iff)
  next
    case upper
    then have x: "unat c - 65 < 26" "65 \<le> unat c" unfolding isupper_unat by linarith+
    have 1: "unat (rotate_byte rotn c) = (unat c - 65 + unat rotn) mod 26 + 65"
      using n c by (simp add: unat_rotate_upper [OF upper])
    have "unat (rotate_byte (26 - rotn) (rotate_byte rotn c))
            = ((unat c - 65 + unat rotn) mod 26 + (26 - unat rotn)) mod 26 + 65"
      using n by (simp add: unat_rotate_upper [OF rotate_byte_upper [OF upper]] 1 m)
    also have "\<dots> = unat c" using rotate_inverse_arith [OF x(1) n] x(2) by simp
    finally show ?thesis by (simp add: word_unat_eq_iff)
  next
    case other
    then show ?thesis by (simp add: rotate_byte_other)
  qed
qed

subsection \<open>The loop of \<open>do_rotate\<close>\<close>

lemma do_rotate_loop_run:
  "unat len \<le> length buf \<Longrightarrow> unat len < 2 ^ 32 \<Longrightarrow> unat i \<le> unat len \<Longrightarrow> n = unat len - unat i \<Longrightarrow>
   \<exists>r. do_rotate_loop buf len rotn i = Some (Done r) \<and> length r = length buf \<and>
     (\<forall>j<length buf. r ! j = (if unat i \<le> j \<and> j < unat len then rotate_byte rotn (buf ! j) else buf ! j))"
proof (induction n arbitrary: buf i)
  case 0
  then have "\<not> (ucast i < len)" by (simp add: counter_less_iff)
  then have "do_rotate_loop buf len rotn i = Some (Done buf)"
    by (subst do_rotate_loop.simps) simp
  with 0 show ?case by auto
next
  case (Suc n)
  let ?b = "buf[unat i := rotate_byte rotn (buf ! unat i)]"
  from Suc.prems have lt: "unat i < unat len" by simp
  then have c: "ucast i < len" by (simp add: counter_less_iff)
  from lt Suc.prems have ib: "unat i < length buf" by simp
  from lt Suc.prems have s: "unat (i + 1) = Suc (unat i)" by (simp add: unat_counter_Suc)
  have "\<exists>r. do_rotate_loop ?b len rotn (i + 1) = Some (Done r) \<and> length r = length ?b \<and>
     (\<forall>j<length ?b. r ! j = (if unat (i + 1) \<le> j \<and> j < unat len then rotate_byte rotn (?b ! j) else ?b ! j))"
    using Suc.prems lt s by (intro Suc.IH) simp_all
  then obtain r where r: "do_rotate_loop ?b len rotn (i + 1) = Some (Done r)" "length r = length buf"
    and rj: "\<And>j. j < length buf \<Longrightarrow> r ! j = (if Suc (unat i) \<le> j \<and> j < unat len then rotate_byte rotn (?b ! j) else ?b ! j)"
    using s by auto
  have "do_rotate_loop buf len rotn i = Some (Done r)"
    using c ib r(1) by (subst do_rotate_loop.simps) simp
  moreover have "\<forall>j<length buf. r ! j = (if unat i \<le> j \<and> j < unat len then rotate_byte rotn (buf ! j) else buf ! j)"
    using rj lt ib by (auto simp: nth_list_update)
  ultimately show ?case using r(2) by blast
qed

lemma do_rotate_eq:
  assumes "unat len \<le> length buf" "unat len < 2 ^ 32"
  shows "do_rotate buf len rotn = Some (Done (map (rotate_byte rotn) (take (unat len) buf) @ drop (unat len) buf))"
proof -
  from do_rotate_loop_run [OF assms, of 0 "unat len" rotn]
  obtain r where r: "do_rotate_loop buf len rotn 0 = Some (Done r)" "length r = length buf"
    and rj: "\<And>j. j < length buf \<Longrightarrow> r ! j = (if j < unat len then rotate_byte rotn (buf ! j) else buf ! j)"
    by auto
  have "r = map (rotate_byte rotn) (take (unat len) buf) @ drop (unat len) buf"
  proof (rule nth_equalityI)
    show "length r = length (map (rotate_byte rotn) (take (unat len) buf) @ drop (unat len) buf)"
      using r(2) assms by simp
  next
    fix j assume "j < length r"
    then have j: "j < length buf" using r(2) by simp
    show "r ! j = (map (rotate_byte rotn) (take (unat len) buf) @ drop (unat len) buf) ! j"
      using rj [OF j] j assms by (auto simp: nth_append)
  qed
  then show ?thesis using r(1) by (simp add: do_rotate_def)
qed

text \<open>Whenever the loop returns, no byte has changed its class.\<close>

lemma do_rotate_loop_case:
  assumes run: "do_rotate_loop buf len rotn i = Some y"
  shows "\<forall>r. y = Done r \<longrightarrow> length r = length buf \<and>
     (\<forall>j<length buf. (islower (buf ! j) \<longrightarrow> islower (r ! j)) \<and> (isupper (buf ! j) \<longrightarrow> isupper (r ! j))
        \<and> (\<not> isalpha (buf ! j) \<longrightarrow> r ! j = buf ! j))"
proof (rule do_rotate_loop.raw_induct [where P = "\<lambda>buf len rotn i y. \<forall>r. y = Done r \<longrightarrow> length r = length buf \<and>
     (\<forall>j<length buf. (islower (buf ! j) \<longrightarrow> islower (r ! j)) \<and> (isupper (buf ! j) \<longrightarrow> isupper (r ! j))
        \<and> (\<not> isalpha (buf ! j) \<longrightarrow> r ! j = buf ! j))", OF _ run])
  fix loop :: "byte list \<Rightarrow> size_t \<Rightarrow> uint32 \<Rightarrow> uint32 \<Rightarrow> byte list exec option"
    and buf len rotn i y
  assume IH: "\<And>buf len rotn i y. loop buf len rotn i = Some y \<Longrightarrow> \<forall>r. y = Done r \<longrightarrow> length r = length buf \<and>
     (\<forall>j<length buf. (islower (buf ! j) \<longrightarrow> islower (r ! j)) \<and> (isupper (buf ! j) \<longrightarrow> isupper (r ! j))
        \<and> (\<not> isalpha (buf ! j) \<longrightarrow> r ! j = buf ! j))"
    and body: "(if ucast i < len then
        (if unat i < length buf then
           loop (buf[unat i := rotate_byte rotn (buf ! unat i)]) len rotn (i + 1)
         else Some Undefined)
      else Some (Done buf)) = Some y"
  show "\<forall>r. y = Done r \<longrightarrow> length r = length buf \<and>
     (\<forall>j<length buf. (islower (buf ! j) \<longrightarrow> islower (r ! j)) \<and> (isupper (buf ! j) \<longrightarrow> isupper (r ! j))
        \<and> (\<not> isalpha (buf ! j) \<longrightarrow> r ! j = buf ! j))"
  proof (cases "ucast i < len \<and> unat i < length buf")
    case False
    with body show ?thesis by (auto split: if_splits)
  next
    case True
    let ?b = "buf[unat i := rotate_byte rotn (buf ! unat i)]"
    from True body have "loop ?b len rotn (i + 1) = Some y" by simp
    from IH [OF this] have ih: "\<forall>r. y = Done r \<longrightarrow> length r = length ?b \<and>
        (\<forall>j<length ?b. (islower (?b ! j) \<longrightarrow> islower (r ! j)) \<and> (isupper (?b ! j) \<longrightarrow> isupper (r ! j))
           \<and> (\<not> isalpha (?b ! j) \<longrightarrow> r ! j = ?b ! j))" .
    show ?thesis
    proof (intro allI impI conjI)
      fix r assume "y = Done r"
      with ih show "length r = length buf" by simp
    next
      fix r j assume y: "y = Done r" and j: "j < length buf" and l: "islower (buf ! j)"
      have "islower (?b ! j)" using l j by (cases "j = unat i") (simp_all add: rotate_byte_lower)
      with ih y j show "islower (r ! j)" by simp
    next
      fix r j assume y: "y = Done r" and j: "j < length buf" and l: "isupper (buf ! j)"
      have "isupper (?b ! j)" using l j by (cases "j = unat i") (simp_all add: rotate_byte_upper)
      with ih y j show "isupper (r ! j)" by simp
    next
      fix r j assume y: "y = Done r" and j: "j < length buf" and l: "\<not> isalpha (buf ! j)"
      have "?b ! j = buf ! j" using l j by (cases "j = unat i") (simp_all add: rotate_byte_other)
      with ih y j l show "r ! j = buf ! j" by simp
    qed
  qed
qed

subsection \<open>The loop of \<open>do_shift\<close>, the header\<close>

lemma unat_counter_mod: "unat ((ucast (i::uint32) :: size_t) mod shiftlen) = unat i mod unat shiftlen"
  by (simp add: unat_mod unat_ucast_up)

lemma do_shift_loop_run:
  "shiftlen \<noteq> 0 \<Longrightarrow> unat shiftlen \<le> length shift \<Longrightarrow>
   unat len \<le> length buf \<Longrightarrow> unat len < 2 ^ 32 \<Longrightarrow> unat i \<le> unat len \<Longrightarrow> n = unat len - unat i \<Longrightarrow>
   \<exists>r. do_shift_loop buf len shift shiftlen i = Some (Done r) \<and> length r = length buf \<and>
     (\<forall>j<length buf. r ! j = (if unat i \<le> j \<and> j < unat len then buf ! j + shift ! (j mod unat shiftlen) else buf ! j))"
proof (induction n arbitrary: buf i)
  case 0
  then have "\<not> (ucast i < len)" by (simp add: counter_less_iff)
  then have "do_shift_loop buf len shift shiftlen i = Some (Done buf)"
    by (subst do_shift_loop.simps) simp
  with 0 show ?case by auto
next
  case (Suc n)
  let ?k = "unat i mod unat shiftlen"
  let ?b = "buf[unat i := buf ! unat i + shift ! ?k]"
  from Suc.prems have lt: "unat i < unat len" by simp
  then have c: "ucast i < len" by (simp add: counter_less_iff)
  from lt Suc.prems have ib: "unat i < length buf" by simp
  from lt Suc.prems have s: "unat (i + 1) = Suc (unat i)" by (simp add: unat_counter_Suc)
  from Suc.prems(1) have "0 < unat shiftlen" by (simp add: unat_gt_0)
  then have "?k < unat shiftlen" by simp
  with Suc.prems(2) have kb: "?k < length shift" by simp
  have "\<exists>r. do_shift_loop ?b len shift shiftlen (i + 1) = Some (Done r) \<and> length r = length ?b \<and>
     (\<forall>j<length ?b. r ! j = (if unat (i + 1) \<le> j \<and> j < unat len then ?b ! j + shift ! (j mod unat shiftlen) else ?b ! j))"
    using Suc.prems lt s by (intro Suc.IH) simp_all
  then obtain r where r: "do_shift_loop ?b len shift shiftlen (i + 1) = Some (Done r)" "length r = length buf"
    and rj: "\<And>j. j < length buf \<Longrightarrow> r ! j = (if Suc (unat i) \<le> j \<and> j < unat len then ?b ! j + shift ! (j mod unat shiftlen) else ?b ! j)"
    using s by auto
  have "do_shift_loop buf len shift shiftlen i = Some (Done r)"
    using c ib kb r(1) Suc.prems(1) by (subst do_shift_loop.simps) (simp add: unat_counter_mod)
  moreover have "\<forall>j<length buf. r ! j = (if unat i \<le> j \<and> j < unat len then buf ! j + shift ! (j mod unat shiftlen) else buf ! j)"
    using rj lt ib by (auto simp: nth_list_update)
  ultimately show ?case using r(2) by blast
qed

lemma do_shift_eq:
  assumes "shiftlen \<noteq> 0" "unat shiftlen \<le> length shift" "unat len \<le> length buf" "unat len < 2 ^ 32"
  shows "do_shift buf len shift shiftlen =
           Some (Done (map (\<lambda>j. buf ! j + shift ! (j mod unat shiftlen)) [0..<unat len] @ drop (unat len) buf))"
proof -
  from do_shift_loop_run [OF assms, of 0 "unat len"]
  obtain r where r: "do_shift_loop buf len shift shiftlen 0 = Some (Done r)" "length r = length buf"
    and rj: "\<And>j. j < length buf \<Longrightarrow> r ! j = (if j < unat len then buf ! j + shift ! (j mod unat shiftlen) else buf ! j)"
    by auto
  have "r = map (\<lambda>j. buf ! j + shift ! (j mod unat shiftlen)) [0..<unat len] @ drop (unat len) buf"
  proof (rule nth_equalityI)
    show "length r = length (map (\<lambda>j. buf ! j + shift ! (j mod unat shiftlen)) [0..<unat len] @ drop (unat len) buf)"
      using r(2) assms by simp
  next
    fix j assume "j < length r"
    then have j: "j < length buf" using r(2) by simp
    show "r ! j = (map (\<lambda>j. buf ! j + shift ! (j mod unat shiftlen)) [0..<unat len] @ drop (unat len) buf) ! j"
      using rj [OF j] j assms by (auto simp: nth_append)
  qed
  then show ?thesis using r(1) by (simp add: do_shift_def)
qed

lemma fold_update_upt:
  "n \<le> length d \<Longrightarrow> fold (\<lambda>i b. b[i := f i]) [0..<n] d = map f [0..<n] @ drop n d"
proof (induction n)
  case 0
  then show ?case by simp
next
  case (Suc n)
  then have n: "n < length d" by simp
  have "fold (\<lambda>i b. b[i := f i]) [0..<Suc n] d = (map f [0..<n] @ drop n d)[n := f n]"
    using Suc by simp
  also have "\<dots> = map f [0..<n] @ (drop n d)[0 := f n]"
    by (simp add: list_update_append)
  also have "(drop n d)[0 := f n] = f n # drop (Suc n) d"
    using n by (simp add: Cons_nth_drop_Suc [symmetric])
  finally show ?case by simp
qed

lemma make_cksum_eq:
  "CHKSUM_LEN \<le> length d \<Longrightarrow>
   make_cksum rnd calls d = Done (map (\<lambda>i. word_of_int (rnd (calls + i))) [0..<CHKSUM_LEN] @ drop CHKSUM_LEN d, calls + CHKSUM_LEN)"
  by (simp add: make_cksum_def fold_update_upt)

lemma make_iv_eq:
  "IV_LEN \<le> length d \<Longrightarrow>
   make_iv rnd calls d = Done (map (\<lambda>i. word_of_int (rnd (calls + i))) [0..<IV_LEN] @ drop IV_LEN d, calls + IV_LEN)"
  by (simp add: make_iv_def fold_update_upt)

subsection \<open>Encrypt and decrypt in closed form\<close>

lemma unat_of_nat_len: "n < 2 ^ 32 \<Longrightarrow> unat (of_nat n :: size_t) = n"
  by (simp add: unat_of_nat)

lemma header_len_word: "(x::size_t) + of_nat CHKSUM_LEN + of_nat IV_LEN = x + 20"
  by (simp add: CHKSUM_LEN_def IV_LEN_def)

lemma header_len_word_minus: "(x::size_t) - of_nat CHKSUM_LEN - of_nat IV_LEN = x - 20"
  by (simp add: CHKSUM_LEN_def IV_LEN_def)

lemma then_exec_Done: "then_exec (Some (Done x)) f = f x"
  by (simp add: then_exec_def)

text \<open>The checksum and the initialization vector fill the first 20 bytes.\<close>

lemma header_fill:
  assumes "length h = CHKSUM_LEN + IV_LEN"
  shows "\<exists>hdr. length hdr = 20 \<and>
     then_exec (Some (make_cksum rnd c (h @ t))) (\<lambda>(d1, c1).
       then_exec (Some (make_iv rnd c1 (drop CHKSUM_LEN d1))) (\<lambda>(d2, c2). k (take CHKSUM_LEN d1 @ d2) c2))
     = k (hdr @ t) (c + 20)"
proof -
  let ?ck = "map (\<lambda>i. word_of_int (rnd (c + i))) [0..<CHKSUM_LEN] :: byte list"
  let ?iv = "map (\<lambda>i. word_of_int (rnd (c + CHKSUM_LEN + i))) [0..<IV_LEN] :: byte list"
  have l: "length h = 20" using assms by (simp add: CHKSUM_LEN_def IV_LEN_def)
  have 1: "make_cksum rnd c (h @ t) = Done (?ck @ drop CHKSUM_LEN h @ t, c + CHKSUM_LEN)"
    using l by (simp add: make_cksum_eq CHKSUM_LEN_def)
  have 2: "drop CHKSUM_LEN (?ck @ drop CHKSUM_LEN h @ t) = drop CHKSUM_LEN h @ t"
    by simp
  have 3: "make_iv rnd (c + CHKSUM_LEN) (drop CHKSUM_LEN h @ t) = Done (?iv @ t, c + CHKSUM_LEN + IV_LEN)"
    using l by (simp add: make_iv_eq CHKSUM_LEN_def IV_LEN_def)
  have 4: "take CHKSUM_LEN (?ck @ drop CHKSUM_LEN h @ t) = ?ck" by simp
  have "then_exec (Some (make_cksum rnd c (h @ t))) (\<lambda>(d1, c1).
       then_exec (Some (make_iv rnd c1 (drop CHKSUM_LEN d1))) (\<lambda>(d2, c2). k (take CHKSUM_LEN d1 @ d2) c2))
     = k ((?ck @ ?iv) @ t) (c + 20)"
    unfolding 1 then_exec_Done prod.case 2 3 4 by (simp add: CHKSUM_LEN_def IV_LEN_def add.commute)
  moreover have "length (?ck @ ?iv) = 20" by (simp add: CHKSUM_LEN_def IV_LEN_def)
  ultimately show ?thesis by blast
qed

lemma rotn_encrypt_run:
  assumes n: "length b < 2 ^ 32"
    and room: "\<not> dst_len < of_nat (length b) + 20"
    and buf: "length b + 20 \<le> length (dst s)"
    and tbl: "shift_len e \<noteq> 0 \<Longrightarrow> unat (shift_len e) \<le> length (table (shift_forw e))"
  shows "\<exists>hdr. length hdr = 20 \<and>
     rotn_encrypt rnd e (Some b) (of_nat (length b)) dst_len s =
       Some (Done (Inr (), s\<lparr>dst := hdr @
          (if shift_len e = 0 then map (rotate_byte (rot_N e)) b
           else map (\<lambda>j. b ! j + table (shift_forw e) ! (j mod unat (shift_len e))) [0..<length b])
          @ drop (20 + length b) (dst s),
          result_len := dst_len, rand_calls := rand_calls s + 20\<rparr>))"
proof -
  let ?len = "of_nat (length b) :: size_t"
  let ?rest = "drop (20 + length b) (dst s)"
  let ?text = "b @ ?rest"
  let ?out = "(if shift_len e = 0 then map (rotate_byte (rot_N e)) b
           else map (\<lambda>j. b ! j + table (shift_forw e) ! (j mod unat (shift_len e))) [0..<length b]) @ ?rest"
  have u: "unat ?len = length b" using n by (rule unat_of_nat_len)
  have cp: "memcpy (drop (CHKSUM_LEN + IV_LEN) (dst s)) b ?len = Done ?text"
    using buf by (simp add: memcpy_def u CHKSUM_LEN_def IV_LEN_def add.commute)
  have tr: "(if shift_len e = 0 then do_rotate ?text ?len (rot_N e)
             else do_shift ?text ?len (table (shift_forw e)) (shift_len e)) = Some (Done ?out)"
  proof (cases "shift_len e = 0")
    case True
    then show ?thesis using n by (simp add: do_rotate_eq u)
  next
    case False
    have "map (\<lambda>j. ?text ! j + table (shift_forw e) ! (j mod unat (shift_len e))) [0..<length b]
        = map (\<lambda>j. b ! j + table (shift_forw e) ! (j mod unat (shift_len e))) [0..<length b]"
      by (rule map_cong) (simp_all add: nth_append)
    then show ?thesis using False n tbl [OF False] by (simp add: do_shift_eq u)
  qed
  define out where "out = ?out"
  have hl: "length (take (CHKSUM_LEN + IV_LEN) (dst s)) = CHKSUM_LEN + IV_LEN"
    using buf by (simp add: CHKSUM_LEN_def IV_LEN_def)
  from header_fill [OF hl, of rnd "rand_calls s" out
      "\<lambda>d c. Some (Done (Inr () :: ret, s\<lparr>dst := d, result_len := dst_len, rand_calls := c\<rparr>))"]
  obtain hdr where h: "length hdr = 20"
    and f: "then_exec (Some (make_cksum rnd (rand_calls s) (take (CHKSUM_LEN + IV_LEN) (dst s) @ out))) (\<lambda>(d1, c1).
       then_exec (Some (make_iv rnd c1 (drop CHKSUM_LEN d1))) (\<lambda>(d2, c2).
         Some (Done (Inr () :: ret, s\<lparr>dst := take CHKSUM_LEN d1 @ d2, result_len := dst_len, rand_calls := c2\<rparr>))))
     = Some (Done (Inr (), s\<lparr>dst := hdr @ out, result_len := dst_len, rand_calls := rand_calls s + 20\<rparr>))"
    by blast
  have "rotn_encrypt rnd e (Some b) ?len dst_len s =
       Some (Done (Inr (), s\<lparr>dst := hdr @ out, result_len := dst_len, rand_calls := rand_calls s + 20\<rparr>))"
    unfolding rotn_encrypt_def option.case header_len_word if_not_P [OF room] cp then_exec_Done tr
      out_def [symmetric]
    using f by simp
  with h show ?thesis unfolding out_def by blast
qed

lemma rotn_decrypt_run:
  assumes n: "unat dst_len < 2 ^ 32"
    and room: "\<not> dst_len < src_len - 20"
    and src: "20 + unat dst_len \<le> length sbuf"
    and buf: "unat dst_len \<le> length (dst s)"
    and tbl: "shift_len e \<noteq> 0 \<Longrightarrow> unat (shift_len e) \<le> length (table (shift_back e))"
  shows "rotn_decrypt e (Some sbuf) src_len dst_len s =
       Some (Done (Inr (), s\<lparr>dst :=
          (if shift_len e = 0 then map (rotate_byte (26 - rot_N e)) (take (unat dst_len) (drop 20 sbuf))
           else map (\<lambda>j. sbuf ! (20 + j) + table (shift_back e) ! (j mod unat (shift_len e))) [0..<unat dst_len])
          @ drop (unat dst_len) (dst s),
          result_len := dst_len\<rparr>))"
proof -
  let ?c = "take (unat dst_len) (drop 20 sbuf)"
  let ?rest = "drop (unat dst_len) (dst s)"
  let ?text = "?c @ ?rest"
  let ?out = "(if shift_len e = 0 then map (rotate_byte (26 - rot_N e)) ?c
           else map (\<lambda>j. sbuf ! (20 + j) + table (shift_back e) ! (j mod unat (shift_len e))) [0..<unat dst_len]) @ ?rest"
  have lc: "length ?c = unat dst_len" using src by simp
  have cp: "memcpy (dst s) (drop (CHKSUM_LEN + IV_LEN) sbuf) dst_len = Done ?text"
    using buf src by (simp add: memcpy_def CHKSUM_LEN_def IV_LEN_def)
  have tr: "(if shift_len e = 0 then do_rotate ?text dst_len (26 - rot_N e)
             else do_shift ?text dst_len (table (shift_back e)) (shift_len e)) = Some (Done ?out)"
  proof (cases "shift_len e = 0")
    case True
    then show ?thesis using n lc by (simp add: do_rotate_eq)
  next
    case False
    have "map (\<lambda>j. ?text ! j + table (shift_back e) ! (j mod unat (shift_len e))) [0..<unat dst_len]
        = map (\<lambda>j. sbuf ! (20 + j) + table (shift_back e) ! (j mod unat (shift_len e))) [0..<unat dst_len]"
      using src by (intro map_cong) (simp_all add: nth_append)
    then show ?thesis using False n lc tbl [OF False] by (simp add: do_shift_eq)
  qed
  show ?thesis
    unfolding rotn_decrypt_def option.case header_len_word_minus if_not_P [OF room] cp then_exec_Done tr
    by simp
qed

subsection \<open>Claims about the codec\<close>

text \<open>
  C5. The rotation transform keeps the case of every letter and leaves every other byte
  as it is: \<open>do_rotate\<close> returns whenever \<open>len\<close> bytes are there and \<open>len\<close> is
  below \<open>2 ^ 32\<close>, and whenever it returns, for every rotation amount, a lowercase
  byte has become a lowercase byte, an uppercase byte an uppercase byte, and a byte
  that is not a letter is unchanged.
\<close>

theorem do_rotate_case_preserved:
  "(unat len \<le> length buf \<and> unat len < 2 ^ 32 \<longrightarrow> (\<exists>r. do_rotate buf len rotn = Some (Done r))) \<and>
   (\<forall>r. do_rotate buf len rotn = Some (Done r) \<longrightarrow>
      length r = length buf \<and>
      (\<forall>j<length buf. (islower (buf ! j) \<longrightarrow> islower (r ! j)) \<and>
                        (isupper (buf ! j) \<longrightarrow> isupper (r ! j)) \<and>
                        (\<not> isalpha (buf ! j) \<longrightarrow> r ! j = buf ! j)))"
proof (rule conjI)
  show "unat len \<le> length buf \<and> unat len < 2 ^ 32 \<longrightarrow> (\<exists>r. do_rotate buf len rotn = Some (Done r))"
    by (simp add: do_rotate_eq)
next
  show "\<forall>r. do_rotate buf len rotn = Some (Done r) \<longrightarrow>
      length r = length buf \<and>
      (\<forall>j<length buf. (islower (buf ! j) \<longrightarrow> islower (r ! j)) \<and>
                        (isupper (buf ! j) \<longrightarrow> isupper (r ! j)) \<and>
                        (\<not> isalpha (buf ! j) \<longrightarrow> r ! j = buf ! j))"
  proof (rule allI, rule impI)
    fix r assume "do_rotate buf len rotn = Some (Done r)"
    then have run: "do_rotate_loop buf len rotn 0 = Some (Done r)" by (simp add: do_rotate_def)
    from do_rotate_loop_case [OF run]
    show "length r = length buf \<and>
        (\<forall>j<length buf. (islower (buf ! j) \<longrightarrow> islower (r ! j)) \<and>
                          (isupper (buf ! j) \<longrightarrow> isupper (r ! j)) \<and>
                          (\<not> isalpha (buf ! j) \<longrightarrow> r ! j = buf ! j))"
      by blast
  qed
qed

theorem do_rotate_case_preserved_witness:
  "\<exists>r. do_rotate [0x48, 0x69, 0x21] 3 13 = Some (Done r) \<and> length r = 3 \<and>
     isupper (r ! 0) \<and> islower (r ! 1) \<and> r ! 2 = 0x21"
proof -
  let ?buf = "[0x48, 0x69, 0x21] :: byte list"
  note t = do_rotate_case_preserved [of 3 ?buf 13]
  have "unat (3 :: size_t) \<le> length ?buf \<and> unat (3 :: size_t) < 2 ^ 32" by simp
  with t obtain r where r: "do_rotate ?buf 3 13 = Some (Done r)" by blast
  with t have l: "length r = length ?buf"
    and p: "\<forall>j<length ?buf. (islower (?buf ! j) \<longrightarrow> islower (r ! j)) \<and>
                        (isupper (?buf ! j) \<longrightarrow> isupper (r ! j)) \<and>
                        (\<not> isalpha (?buf ! j) \<longrightarrow> r ! j = ?buf ! j)"
    by blast+
  from p have "isupper (r ! 0)" by (simp add: isupper_def)
  moreover from p have "islower (r ! 1)" by (simp add: islower_def)
  moreover from p have "r ! 2 = 0x21" by (simp add: isalpha_def islower_def isupper_def)
  ultimately show ?thesis using r l by simp
qed

lemma add_20_minus_20: "\<not> (x::size_t) < x + 20 - 20"
  by simp

text \<open>
  C1. In rotation mode (no secret key) with a rotation amount from 0 to 25, encrypting a
  buffer of fewer than \<open>2 ^ 32\<close> bytes, printable or not, into a destination of
  \<open>length b + 20\<close> bytes and decrypting what encrypt wrote, with the length it
  reported, gives the buffer back: decrypt rotates the bytes after the 20-byte header by
  \<open>26 - rot_N\<close>. Both calls return 0.
\<close>

theorem rotation_round_trip:
  assumes mode: "shift_len e = 0" and n: "rot_N e \<le> 25" and len: "length b < 2 ^ 32"
    and room: "length b + 20 \<le> length (dst s)" and room': "length b \<le> length (dst t)"
  shows "\<exists>s'. rotn_encrypt rnd e (Some b) (of_nat (length b)) (of_nat (length b) + 20) s
                 = Some (Done (Inr (), s')) \<and>
          (\<exists>t'. rotn_decrypt e (Some (dst s')) (result_len s') (of_nat (length b)) t
                 = Some (Done (Inr (), t')) \<and>
                take (length b) (dst t') = b \<and> result_len t' = of_nat (length b))"
proof -
  let ?n = "of_nat (length b) :: size_t"
  have u: "unat ?n = length b" using len by (rule unat_of_nat_len)
  have k: "unat (rot_N e) \<le> 25" using n by (simp add: word_le_nat_alt)
  have "\<not> ?n + 20 < ?n + 20" by simp
  from rotn_encrypt_run [OF len this room, of e rnd] mode
  obtain hdr where h: "length hdr = 20"
    and enc: "rotn_encrypt rnd e (Some b) ?n (?n + 20) s =
       Some (Done (Inr (), s\<lparr>dst := hdr @ map (rotate_byte (rot_N e)) b @ drop (20 + length b) (dst s),
          result_len := ?n + 20, rand_calls := rand_calls s + 20\<rparr>))"
    by auto
  let ?s' = "s\<lparr>dst := hdr @ map (rotate_byte (rot_N e)) b @ drop (20 + length b) (dst s),
          result_len := ?n + 20, rand_calls := rand_calls s + 20\<rparr>"
  have src: "20 + unat ?n \<le> length (dst ?s')" using h u by simp
  have dl: "unat ?n < 2 ^ 32" using u len by simp
  have buf: "unat ?n \<le> length (dst t)" using u room' by simp
  have "rotn_decrypt e (Some (dst ?s')) (?n + 20) ?n t =
       Some (Done (Inr (), t\<lparr>dst :=
          (if shift_len e = 0 then map (rotate_byte (26 - rot_N e)) (take (unat ?n) (drop 20 (dst ?s')))
           else map (\<lambda>j. dst ?s' ! (20 + j) + table (shift_back e) ! (j mod unat (shift_len e))) [0..<unat ?n])
          @ drop (unat ?n) (dst t),
          result_len := ?n\<rparr>))"
    using mode by (intro rotn_decrypt_run [OF dl add_20_minus_20 src buf]) simp
  moreover have "map (rotate_byte (26 - rot_N e)) (take (unat ?n) (drop 20 (dst ?s'))) = b"
    using h u by (simp add: rotate_byte_inverse [OF k] map_idI)
  ultimately have dec: "rotn_decrypt e (Some (dst ?s')) (result_len ?s') ?n t =
       Some (Done (Inr (), t\<lparr>dst := b @ drop (length b) (dst t), result_len := ?n\<rparr>))"
    using mode u by simp
  show ?thesis
    unfolding enc using dec by simp
qed

theorem rotation_round_trip_witness:
  "\<exists>s'. rotn_encrypt (\<lambda>k. 7) (registered\<lparr>rot_N := 13\<rparr>) (Some [0x48, 0x69, 0x21]) 3 23
            \<lparr>dst = replicate 23 0, result_len = 0, rand_calls = 0, stderr = []\<rparr>
          = Some (Done (Inr (), s')) \<and>
     (\<exists>t'. rotn_decrypt (registered\<lparr>rot_N := 13\<rparr>) (Some (dst s')) (result_len s') 3
            \<lparr>dst = replicate 3 0, result_len = 0, rand_calls = 0, stderr = []\<rparr>
          = Some (Done (Inr (), t')) \<and> take 3 (dst t') = [0x48, 0x69, 0x21] \<and> result_len t' = 3)"
  using rotation_round_trip [of "registered\<lparr>rot_N := 13\<rparr>" "[0x48, 0x69, 0x21]"
      "\<lparr>dst = replicate 23 0, result_len = 0, rand_calls = 0, stderr = []\<rparr>"
      "\<lparr>dst = replicate 3 0, result_len = 0, rand_calls = 0, stderr = []\<rparr>" "\<lambda>k. 7"]
  by (simp add: registered_def numeral_3_eq_3)


lemma unat_minus_20: 
  assumes "src_len < (20::size_t)"
  shows "unat (src_len - 20) = 2 ^ 64 - 20 + unat src_len"
proof -
  have "unat src_len < 20" using assms by (simp add: word_less_nat_alt)
  then show ?thesis by (simp add: unat_sub_if_size word_size)
qed

text \<open>
  C10. For a source that is not NULL and shorter than the 20-byte header, the size check
  of \<open>rotn_decrypt\<close> subtracts 20 from \<open>src_len\<close> in \<open>size_t\<close>: the
  difference wraps to \<open>2 ^ 64 - 20 + src_len\<close>, and for every destination length
  below that value decrypt writes its diagnostic and returns \<open>ENOMEM\<close> without
  touching either buffer.
\<close>

theorem rotn_decrypt_short_source:
  assumes "0 < src_len" and "src_len < 20" and "dst_len < src_len - 20"
  shows "unat (src_len - 20) = 2 ^ 64 - 20 + unat src_len \<and>
         rotn_decrypt e (Some sbuf) src_len dst_len s =
           Some (Done (Inl ENOMEM, s\<lparr>stderr := stderr s @ [''Rotate: ENOMEM ERROR'' @ [CHR 0x0A]]\<rparr>))"
  using assms by (simp add: unat_minus_20 rotn_decrypt_def header_len_word_minus)

theorem rotn_decrypt_short_source_witness:
  "rotn_decrypt registered (Some [1, 2, 3, 4, 5]) 5 100
      \<lparr>dst = replicate 100 0, result_len = 0, rand_calls = 0, stderr = []\<rparr> =
     Some (Done (Inl ENOMEM, \<lparr>dst = replicate 100 0, result_len = 0, rand_calls = 0,
                               stderr = [''Rotate: ENOMEM ERROR'' @ [CHR 0x0A]]\<rparr>))"
  using rotn_decrypt_short_source [of 5 100 registered "[1, 2, 3, 4, 5]"
      "\<lparr>dst = replicate 100 0, result_len = 0, rand_calls = 0, stderr = []\<rparr>"]
  by simp

text \<open>
  C8, as the code has it. With a NULL source both \<open>rotn_encrypt\<close> and
  \<open>rotn_decrypt\<close> return 0 and leave the destination, \<open>*result_lenp\<close>, the
  random generator and the diagnostic stream as they were.
\<close>

theorem null_source_no_op:
  "rotn_encrypt rnd e None src_len dst_len s = Some (Done (Inr (), s)) \<and>
   rotn_decrypt e None src_len dst_len s = Some (Done (Inr (), s))"
  by (simp add: rotn_encrypt_def rotn_decrypt_def)

text \<open>
  C8 as stated fails for a source that is not NULL and has length zero: encrypt writes
  the 20 header bytes and the result length, decrypt returns \<open>ENOMEM\<close> and writes
  its diagnostic.
\<close>

theorem empty_source_counterexample:
  "rotn_encrypt (\<lambda>k. int k + 1) registered (Some []) 0 20
      \<lparr>dst = replicate 20 0, result_len = 0, rand_calls = 0, stderr = []\<rparr> =
     Some (Done (Inr (), \<lparr>dst = [1, 2, 3, 4, 5, 6, 7, 8, 9, 10, 11, 12, 13, 14, 15, 16, 17, 18, 19, 20],
                          result_len = 20, rand_calls = 20, stderr = []\<rparr>)) \<and>
   rotn_decrypt registered (Some []) 0 0
      \<lparr>dst = [], result_len = 0, rand_calls = 0, stderr = []\<rparr> =
     Some (Done (Inl ENOMEM, \<lparr>dst = [], result_len = 0, rand_calls = 0,
                               stderr = [''Rotate: ENOMEM ERROR'' @ [CHR 0x0A]]\<rparr>))"
  by code_simp

text \<open>
  C4 as stated fails for an oversized destination: with one source byte and
  \<open>dst_len = 22\<close> the reported length is 22, not 21.
\<close>

theorem oversized_destination_counterexample:
  "rotn_encrypt (\<lambda>k. 0) registered (Some [0x41]) 1 22
      \<lparr>dst = replicate 22 0, result_len = 0, rand_calls = 0, stderr = []\<rparr> =
     Some (Done (Inr (), \<lparr>dst = replicate 20 0 @ [0x41, 0],
                          result_len = 22, rand_calls = 20, stderr = []\<rparr>))"
  by code_simp

text \<open>
  C4, as the code has it. A successful encrypt of a source of \<open>length b\<close> bytes
  reports the destination length it was given, which is \<open>length b + 20\<close> when the
  destination is sized \<open>src_len + 20\<close> exactly; \<open>rotn_sizing\<close> reports 20 for
  every structure.
\<close>

theorem encrypt_length_law:
  assumes "length b < 2 ^ 32"
    and "\<not> dst_len < of_nat (length b) + 20"
    and "length b + 20 \<le> length (dst s)"
    and "shift_len e \<noteq> 0 \<longrightarrow> unat (shift_len e) \<le> length (table (shift_forw e))"
  shows "(\<exists>s'. rotn_encrypt rnd e (Some b) (of_nat (length b)) dst_len s = Some (Done (Inr (), s')) \<and>
              result_len s' = dst_len \<and>
              (dst_len = of_nat (length b) + 20 \<longrightarrow> result_len s' = of_nat (length b + 20))) \<and>
         rotn_sizing e' c = (Inr (), 20)"
proof -
  from assms(4) have t: "shift_len e \<noteq> 0 \<Longrightarrow> unat (shift_len e) \<le> length (table (shift_forw e))"
    by simp
  from rotn_encrypt_run [OF assms(1-3) t, of rnd]
  obtain s' where "rotn_encrypt rnd e (Some b) (of_nat (length b)) dst_len s = Some (Done (Inr (), s'))"
    and "result_len s' = dst_len"
    by auto
  then show ?thesis by (auto simp: rotn_sizing_def CHKSUM_LEN_def IV_LEN_def)
qed

theorem encrypt_length_law_witness:
  "(\<exists>s'. rotn_encrypt (\<lambda>k. 0) registered (Some [0x41, 0x42]) 2 22
            \<lparr>dst = replicate 22 0, result_len = 0, rand_calls = 0, stderr = []\<rparr> = Some (Done (Inr (), s')) \<and>
         result_len s' = 22) \<and>
   rotn_sizing registered 0 = (Inr (), 20)"
  using encrypt_length_law [of "[0x41, 0x42]" 22
      "\<lparr>dst = replicate 22 0, result_len = 0, rand_calls = 0, stderr = []\<rparr>" registered "\<lambda>k. 0" registered 0]
  by (simp add: registered_def)

subsection \<open>The shift tables\<close>

lemma shift_tables_Some:
  "shift_tables k cs = Some (forw, back) \<Longrightarrow>
     length forw = length cs \<and> length back = length cs \<and>
     (\<forall>i<length cs. forw ! i + back ! i = 0) \<and> (\<forall>c\<in>set cs. isalpha c)"
proof (induction cs arbitrary: forw "back")
  case Nil
  then show ?case by simp
next
  case (Cons c cs)
  from Cons.prems obtain f b where rec: "shift_tables k cs = Some (f, b)"
    and alpha: "islower c \<or> isupper c"
    and fw: "forw = (c - ((if islower c then 0x61 else 0x41) - word_of_int k)) # f"
    and bk: "back = (((if islower c then 0x61 else 0x41) - word_of_int k) - c) # b"
    by (auto simp: Let_def split: if_splits option.splits)
  from Cons.IH [OF rec] have ih: "length f = length cs" "length b = length cs"
    "\<forall>i<length cs. f ! i + b ! i = 0" "\<forall>c\<in>set cs. isalpha c" by simp_all
  have "forw ! i + back ! i = 0" if "i < length (c # cs)" for i
    using that ih(3) fw bk by (cases i) simp_all
  with ih alpha fw bk show ?case by (simp add: isalpha_def disj_commute)
qed

lemma shift_tables_alpha:
  "\<forall>c\<in>set cs. isalpha c \<Longrightarrow> \<exists>forw back. shift_tables k cs = Some (forw, back)"
  by (induction cs) (auto simp: isalpha_def Let_def)

lemma shift_tables_None:
  assumes "\<exists>c\<in>set cs. \<not> isalpha c"
  shows "shift_tables k cs = None"
proof (cases "shift_tables k cs")
  case None
  then show ?thesis .
next
  case (Some p)
  then have "shift_tables k cs = Some (fst p, snd p)" by simp
  from shift_tables_Some [OF this] assms show ?thesis by blast
qed

lemma not_isalpha_NUL: "\<not> isalpha 0"
  by (simp add: isalpha_def islower_def isupper_def)

lemma secret_bytes_alpha_length:
  assumes "\<forall>c\<in>set (secret_bytes sec). isalpha c"
  shows "length (secret_bytes sec) = unat (item_len sec)"
proof (cases "length (item_str sec) < unat (item_len sec)")
  case True
  then have "0 \<in> set (secret_bytes sec)" by (simp add: secret_bytes_def)
  with assms not_isalpha_NUL show ?thesis by blast
next
  case False
  then show ?thesis by (simp add: secret_bytes_def)
qed

text \<open>Two tables that cancel position by position make decrypt undo encrypt.\<close>

lemma cancelling_tables_round_trip:
  assumes mode: "shift_len e \<noteq> 0"
    and fl: "length (table (shift_forw e)) = unat (shift_len e)"
    and bl: "length (table (shift_back e)) = unat (shift_len e)"
    and sym: "\<forall>i<unat (shift_len e). table (shift_forw e) ! i + table (shift_back e) ! i = 0"
    and len: "length b < 2 ^ 32"
    and room: "length b + 20 \<le> length (dst s)" and room': "length b \<le> length (dst t)"
  shows "\<exists>s'. rotn_encrypt rnd e (Some b) (of_nat (length b)) (of_nat (length b) + 20) s
                 = Some (Done (Inr (), s')) \<and>
          (\<exists>t'. rotn_decrypt e (Some (dst s')) (result_len s') (of_nat (length b)) t
                 = Some (Done (Inr (), t')) \<and>
                take (length b) (dst t') = b \<and> result_len t' = of_nat (length b))"
proof -
  let ?n = "of_nat (length b) :: size_t"
  let ?L = "unat (shift_len e)"
  let ?F = "table (shift_forw e)" and ?B = "table (shift_back e)"
  let ?c = "map (\<lambda>j. b ! j + ?F ! (j mod ?L)) [0..<length b]"
  have u: "unat ?n = length b" using len by (rule unat_of_nat_len)
  have L: "0 < ?L" using mode by (simp add: unat_gt_0)
  have "\<not> ?n + 20 < ?n + 20" by simp
  from rotn_encrypt_run [OF len this room, of e rnd] mode fl
  obtain hdr where h: "length hdr = 20"
    and enc: "rotn_encrypt rnd e (Some b) ?n (?n + 20) s =
       Some (Done (Inr (), s\<lparr>dst := hdr @ ?c @ drop (20 + length b) (dst s),
          result_len := ?n + 20, rand_calls := rand_calls s + 20\<rparr>))"
    by auto
  let ?s' = "s\<lparr>dst := hdr @ ?c @ drop (20 + length b) (dst s),
          result_len := ?n + 20, rand_calls := rand_calls s + 20\<rparr>"
  have src: "20 + unat ?n \<le> length (dst ?s')" using h u by simp
  have dl: "unat ?n < 2 ^ 32" using u len by simp
  have buf: "unat ?n \<le> length (dst t)" using u room' by simp
  have "rotn_decrypt e (Some (dst ?s')) (?n + 20) ?n t =
       Some (Done (Inr (), t\<lparr>dst :=
          (if shift_len e = 0 then map (rotate_byte (26 - rot_N e)) (take (unat ?n) (drop 20 (dst ?s')))
           else map (\<lambda>j. dst ?s' ! (20 + j) + ?B ! (j mod ?L)) [0..<unat ?n])
          @ drop (unat ?n) (dst t),
          result_len := ?n\<rparr>))"
    using bl by (intro rotn_decrypt_run [OF dl add_20_minus_20 src buf]) simp
  moreover have "map (\<lambda>j. dst ?s' ! (20 + j) + ?B ! (j mod ?L)) [0..<unat ?n] = b"
  proof (rule nth_equalityI)
    show "length (map (\<lambda>j. dst ?s' ! (20 + j) + ?B ! (j mod ?L)) [0..<unat ?n]) = length b"
      using u by simp
  next
    fix j assume "j < length (map (\<lambda>j. dst ?s' ! (20 + j) + ?B ! (j mod ?L)) [0..<unat ?n])"
    then have j: "j < length b" using u by simp
    have m: "j mod ?L < ?L" using L by simp
    have "dst ?s' ! (20 + j) = b ! j + ?F ! (j mod ?L)"
      using h j by (simp add: nth_append)
    then have "dst ?s' ! (20 + j) + ?B ! (j mod ?L) = b ! j + (?F ! (j mod ?L) + ?B ! (j mod ?L))"
      by (simp add: add.assoc)
    also have "\<dots> = b ! j" using sym m by simp
    finally show "map (\<lambda>j. dst ?s' ! (20 + j) + ?B ! (j mod ?L)) [0..<unat ?n] ! j = b ! j"
      using j u by simp
  qed
  ultimately have dec: "rotn_decrypt e (Some (dst ?s')) (result_len ?s') ?n t =
       Some (Done (Inr (), t\<lparr>dst := b @ drop (length b) (dst t), result_len := ?n\<rparr>))"
    using mode u by simp
  show ?thesis
    unfolding enc using dec by simp
qed

subsection \<open>The paths through \<open>rotn_customize\<close>\<close>

lemma table_Some: "table (Some (p, t)) = t"
  by (simp add: table_def)

lemma malloc_ok:
  "mem (requests h) \<Longrightarrow>
   malloc mem h = (Some (requests h), h\<lparr>requests := Suc (requests h), live := requests h # live h\<rparr>)"
  by (simp add: malloc_def Let_def)

lemma malloc_fail:
  "\<not> mem (requests h) \<Longrightarrow>
   malloc mem h = (None, h\<lparr>requests := Suc (requests h), errno := ENOMEM\<rparr>)"
  by (simp add: malloc_def Let_def)

lemma customize_secret_Inr:
  assumes "customize_secret mem cfg a k e h = Done (Inr (a', e'), h')"
    and "cfg ''secretkey'' = Some sec" and "item_len sec \<noteq> 0"
  shows "\<exists>forw bckw. shift_tables k (secret_bytes sec) = Some (forw, bckw) \<and>
           table (shift_forw e') = forw \<and> table (shift_back e') = bckw \<and>
           shift_len e' = item_len sec"
  using assms
  by (auto simp: customize_secret_def Let_def table_Some split: prod.splits option.splits if_splits)

lemma customize_keyid_Inr:
  assumes "customize_keyid mem cfg a k e h = Done (Inr r, h')"
  shows "\<exists>e1 h1. customize_secret mem cfg a k e1 h1 = Done (Inr r, h')"
  using assms
  by (auto simp: customize_keyid_def split: prod.splits option.splits if_splits)

lemma rotn_customize_Inr:
  assumes "rotn_customize mem orig cfg stack_str h = Done (Inr r, h')"
  shows "\<exists>a k e1 h1. customize_secret mem cfg a k e1 h1 = Done (Inr r, h')"
  using assms
  by (auto simp: rotn_customize_def Let_def split: prod.splits option.splits if_splits)
    (blast dest: customize_keyid_Inr)

lemma customize_secret_ok:
  assumes "cfg ''secretkey'' = Some sec" and "item_len sec \<noteq> 0" and "item_len sec + 1 \<noteq> 0"
    and "\<forall>j. mem j" and "shift_tables k (secret_bytes sec) = Some (forw, bckw)"
  shows "\<exists>e' h'. customize_secret mem cfg a k e h = Done (Inr (a, e'), h')"
  using assms by (simp add: customize_secret_def Let_def malloc_ok)

lemma customize_keyid_ok:
  assumes "cfg ''secretkey'' = Some sec" and "item_len sec \<noteq> 0" and "item_len sec + 1 \<noteq> 0"
    and "\<forall>j. mem j" and "shift_tables k (secret_bytes sec) = Some (forw, bckw)"
    and "\<forall>kid. cfg ''keyid'' = Some kid \<longrightarrow> item_len kid + 1 \<noteq> 0"
  shows "\<exists>e' h'. customize_keyid mem cfg a k e h = Done (Inr (a, e'), h')"
proof -
  note ok = customize_secret_ok [where cfg = cfg and mem = mem, OF assms(1-5)]
  show ?thesis
  proof (cases "cfg ''keyid''")
    case None
    then show ?thesis using ok by (simp add: customize_keyid_def)
  next
    case (Some kid)
    then show ?thesis using ok assms(4,6) by (simp add: customize_keyid_def malloc_ok)
  qed
qed

lemma rotn_customize_ok:
  assumes "cfg ''secretkey'' = Some sec" and "item_len sec \<noteq> 0" and "item_len sec + 1 \<noteq> 0"
    and "\<forall>j. mem j" and "shift_tables k (secret_bytes sec) = Some (forw, bckw)"
    and "\<forall>kid. cfg ''keyid'' = Some kid \<longrightarrow> item_len kid + 1 \<noteq> 0"
    and "atoi g = Some k" and "0 \<le> k"
  shows "\<exists>a e' h'. rotn_customize mem orig cfg (Some g) h = Done (Inr (a, e'), h')"
proof -
  from assms(4) have m: "malloc mem h = (Some (requests h), h\<lparr>requests := Suc (requests h), live := requests h # live h\<rparr>)"
    by (simp add: malloc_ok)
  let ?h0 = "h\<lparr>requests := Suc (requests h), live := requests h # live h\<rparr>"
  from customize_keyid_ok [where cfg = cfg and mem = mem, OF assms(1-6), of "requests h" "orig\<lparr>keyid := None, secretkey := None\<rparr>" ?h0]
  obtain e' h' where "customize_keyid mem cfg (requests h) k (orig\<lparr>keyid := None, secretkey := None\<rparr>) ?h0 = Done (Inr (requests h, e'), h')"
    by blast
  then show ?thesis
    using assms(7,8) by (simp add: rotn_customize_def m Let_def)
qed

lemma customize_secret_bad:
  assumes "cfg ''secretkey'' = Some sec" and "item_len sec \<noteq> 0"
    and "shift_tables k (secret_bytes sec) = None"
  shows "\<exists>h'. customize_secret mem cfg a k e h = Done (Inl EPERM, h')"
  using assms
  by (simp add: customize_secret_def Let_def split: prod.splits option.splits)

lemma customize_keyid_bad:
  assumes "cfg ''secretkey'' = Some sec" and "item_len sec \<noteq> 0"
    and "shift_tables k (secret_bytes sec) = None"
    and "\<forall>kid. cfg ''keyid'' = Some kid \<longrightarrow> item_len kid + 1 \<noteq> 0"
  shows "\<exists>h'. customize_keyid mem cfg a k e h = Done (Inl EPERM, h')"
  using assms(4) customize_secret_bad [where cfg = cfg, OF assms(1-3)]
  by (simp add: customize_keyid_def split: prod.splits option.splits)

lemma rotn_customize_bad:
  assumes "cfg ''secretkey'' = Some sec" and "item_len sec \<noteq> 0"
    and "shift_tables k (secret_bytes sec) = None"
    and "\<forall>kid. cfg ''keyid'' = Some kid \<longrightarrow> item_len kid + 1 \<noteq> 0"
    and "atoi g = Some k"
  shows "\<exists>err h'. rotn_customize mem orig cfg (Some g) h = Done (Inl err, h')"
proof (cases "malloc mem h")
  case (Pair p h0)
  show ?thesis
  proof (cases p)
    case None
    with Pair show ?thesis by (simp add: rotn_customize_def)
  next
    case (Some a)
    from customize_keyid_bad [where cfg = cfg, OF assms(1-4), of mem a "orig\<lparr>keyid := None, secretkey := None\<rparr>" h0]
    obtain h' where "customize_keyid mem cfg a k (orig\<lparr>keyid := None, secretkey := None\<rparr>) h0 = Done (Inl EPERM, h')"
      by blast
    with Pair Some assms(5) show ?thesis by (simp add: rotn_customize_def Let_def)
  qed
qed

lemma customize_secret_Inl:
  assumes "customize_secret mem cfg a k e h = Done (Inl err, h')"
    and "secretkey e = None" and "shift_forw e = None" and "shift_back e = None"
    and "\<forall>p c. keyid e = Some (p, c) \<longrightarrow> p < requests h"
  shows "err = EPERM \<and> live h' = remove1 a (live (free_ptr (keyid e) h))"
  using assms
  by (auto simp: customize_secret_def customize_err_def free_def free_ptr_def malloc_def Let_def
      split: option.splits prod.splits if_splits)

lemma customize_keyid_Inl:
  assumes "customize_keyid mem cfg a k e h = Done (Inl err, h')"
    and "keyid e = None"
    and "secretkey e = None" and "shift_forw e = None" and "shift_back e = None"
  shows "err = EPERM \<and> live h' = remove1 a (live h)"
proof (cases "\<exists>kid. cfg ''keyid'' = Some kid \<and> item_len kid \<noteq> 0")
  case False
  then have "customize_keyid mem cfg a k e h = customize_secret mem cfg a k e h"
    by (auto simp: customize_keyid_def split: option.splits)
  with assms(1) have "customize_secret mem cfg a k e h = Done (Inl err, h')" by simp
  from customize_secret_Inl [OF this assms(3-5)] assms(2) show ?thesis
    by (simp add: free_ptr_def)
next
  case True
  then obtain kid where kid: "cfg ''keyid'' = Some kid" "item_len kid \<noteq> 0" by blast
  show ?thesis
  proof (cases "mem (requests h)")
    case False
    with kid assms show ?thesis
      by (auto simp: customize_keyid_def malloc_fail customize_err_def free_ptr_def free_def)
  next
    case True
    let ?e = "e\<lparr>keyid := Some (requests h, strncpy (item_str kid) (item_len kid))\<rparr>"
    let ?h = "h\<lparr>requests := Suc (requests h), live := requests h # live h\<rparr>"
    from True kid assms(1) have "customize_secret mem cfg a k ?e ?h = Done (Inl err, h')"
      by (simp add: customize_keyid_def malloc_ok split: if_splits)
    from customize_secret_Inl [OF this] assms(3-5) show ?thesis
      by (simp add: free_ptr_def free_def)
  qed
qed

lemma rotn_customize_Inl:
  assumes "rotn_customize mem orig cfg stack_str h = Done (Inl err, h')"
    and "shift_forw orig = None" and "shift_back orig = None"
  shows "(if mem (requests h) then err = EPERM else err = ENOMEM) \<and> live h' = live h"
proof (cases "mem (requests h)")
  case False
  with assms(1) show ?thesis by (auto simp: rotn_customize_def malloc_fail)
next
  case True
  let ?e = "orig\<lparr>keyid := None, secretkey := None\<rparr>"
  let ?h = "h\<lparr>requests := Suc (requests h), live := requests h # live h\<rparr>"
  from True assms(1) obtain g k where g: "stack_str = Some g" "atoi g = Some k"
    by (auto simp: rotn_customize_def malloc_ok Let_def split: option.splits)
  show ?thesis
  proof (cases "k < 0")
    case neg: True
    with True g assms show ?thesis
      by (auto simp: rotn_customize_def malloc_ok Let_def customize_err_def free_ptr_def free_def)
  next
    case False
    with True g assms(1) have "customize_keyid mem cfg (requests h) k ?e ?h = Done (Inl err, h')"
      by (simp add: rotn_customize_def malloc_ok Let_def)
    from customize_keyid_Inl [OF this] assms(2,3) True show ?thesis by simp
  qed
qed

subsection \<open>Claims about customize\<close>

text \<open>
  C3. In every structure that \<open>rotn_customize\<close> returns for a configuration with a
  secret key that is not empty, both tables have the length of the secret and, at every
  position below it, the forward and the backward shift add up to 0 modulo 256.
\<close>

theorem shift_table_symmetry:
  assumes "rotn_customize mem orig config_get stack_str h = Done (Inr (a, e), h')"
    and "config_get ''secretkey'' = Some sec" and "item_len sec \<noteq> 0"
  shows "shift_len e = item_len sec \<and>
         length (table (shift_forw e)) = unat (item_len sec) \<and>
         length (table (shift_back e)) = unat (item_len sec) \<and>
         (\<forall>i<unat (item_len sec).
            (unat (table (shift_forw e) ! i) + unat (table (shift_back e) ! i)) mod 256 = 0)"
proof -
  from rotn_customize_Inr [OF assms(1)]
  obtain a0 k e1 h1 where "customize_secret mem config_get a0 k e1 h1 = Done (Inr (a, e), h')"
    by blast
  from customize_secret_Inr [OF this assms(2,3)]
  obtain forw bckw where t: "shift_tables k (secret_bytes sec) = Some (forw, bckw)"
    and e: "table (shift_forw e) = forw" "table (shift_back e) = bckw" "shift_len e = item_len sec"
    by blast
  from shift_tables_Some [OF t]
  have l: "length forw = length (secret_bytes sec)" "length bckw = length (secret_bytes sec)"
    and z: "\<forall>i<length (secret_bytes sec). forw ! i + bckw ! i = 0"
    and al: "\<forall>c\<in>set (secret_bytes sec). isalpha c"
    by simp_all
  have n: "length (secret_bytes sec) = unat (item_len sec)"
    using al by (rule secret_bytes_alpha_length)
  have "(unat (forw ! i) + unat (bckw ! i)) mod 256 = 0" if "i < unat (item_len sec)" for i
  proof -
    from that z n have "forw ! i + bckw ! i = 0" by simp
    then have "unat (forw ! i + bckw ! i) = 0" by simp
    then show ?thesis by (simp add: unat_word_ariths)
  qed
  with e l n show ?thesis by simp
qed

theorem shift_table_symmetry_witness:
  "rotn_customize (\<lambda>_. True) registered
       [''keyid'' \<mapsto> \<lparr>item_str = ''2'', item_len = 1\<rparr>,
        ''secretkey'' \<mapsto> \<lparr>item_str = ''ABC'', item_len = 3\<rparr>] (Some ''2'')
       \<lparr>requests = 0, live = [], errno = EINVAL\<rparr> =
     Done (Inr (0, \<lparr>rot_N = 2, keyid = Some (1, ''2''), secretkey = Some (2, ''ABC''),
                     shift_forw = Some (3, [2, 3, 4]), shift_back = Some (4, [254, 253, 252]),
                     shift_len = 3\<rparr>),
           \<lparr>requests = 5, live = [4, 3, 2, 1, 0], errno = EINVAL\<rparr>) \<and>
   (unat ([2, 3, 4 :: byte] ! 1) + unat ([254, 253, 252 :: byte] ! 1)) mod 256 = 0"
proof -
  let ?cfg = "[''keyid'' \<mapsto> \<lparr>item_str = ''2'', item_len = 1\<rparr>,
               ''secretkey'' \<mapsto> \<lparr>item_str = ''ABC'', item_len = 3\<rparr>]"
  let ?h = "\<lparr>requests = 0, live = [], errno = EINVAL\<rparr>"
  let ?e = "\<lparr>rot_N = 2, keyid = Some (1, ''2''), secretkey = Some (2, ''ABC''),
             shift_forw = Some (3, [2, 3, 4]), shift_back = Some (4, [254, 253, 252]), shift_len = 3\<rparr>"
  have run: "rotn_customize (\<lambda>_. True) registered ?cfg (Some ''2'') ?h =
      Done (Inr (0, ?e), \<lparr>requests = 5, live = [4, 3, 2, 1, 0], errno = EINVAL\<rparr>)"
    by code_simp
  have sec: "?cfg ''secretkey'' = Some \<lparr>item_str = ''ABC'', item_len = 3\<rparr>" by simp
  have nz: "item_len \<lparr>item_str = ''ABC'', item_len = 3\<rparr> \<noteq> 0" by simp
  from shift_table_symmetry [OF run sec nz]
  have "\<forall>i<unat (3::size_t). (unat ([2, 3, 4 :: byte] ! i) + unat ([254, 253, 252 :: byte] ! i)) mod 256 = 0"
    by (simp add: table_def)
  then have "(unat ([2, 3, 4 :: byte] ! 1) + unat ([254, 253, 252 :: byte] ! 1)) mod 256 = 0"
    by simp
  with run show ?thesis by blast
qed

text \<open>
  C2. For a secret key made of letters, a key value \<open>k \<ge> 0\<close> read by \<open>atoi\<close> and
  an allocator that does not fail, \<open>rotn_customize\<close> returns a structure, and with
  it encrypting a buffer into a destination of \<open>length b + 20\<close> bytes and decrypting
  what encrypt wrote, with the length it reported, gives the buffer back. Neither the
  length of the secret nor \<open>k\<close> is bounded above; the buffer is shorter than
  \<open>2 ^ 32\<close> bytes.
\<close>

theorem shift_round_trip:
  assumes sec: "config_get ''secretkey'' = Some sec" "item_len sec \<noteq> 0" "item_len sec + 1 \<noteq> 0"
    and alpha: "unat (item_len sec) \<le> length (item_str sec)"
               "\<forall>c\<in>set (take (unat (item_len sec)) (item_str sec)). isalpha (of_char c)"
    and kid: "\<forall>kid. config_get ''keyid'' = Some kid \<longrightarrow> item_len kid + 1 \<noteq> 0"
    and key: "atoi g = Some k" "0 \<le> k"
    and mem: "\<forall>j. mem j"
    and len: "length b < 2 ^ 32"
    and room: "length b + 20 \<le> length (dst s)" and room': "length b \<le> length (dst t)"
  shows "\<exists>a e h'. rotn_customize mem orig config_get (Some g) h = Done (Inr (a, e), h') \<and>
           (\<exists>s'. rotn_encrypt rnd e (Some b) (of_nat (length b)) (of_nat (length b) + 20) s
                    = Some (Done (Inr (), s')) \<and>
              (\<exists>t'. rotn_decrypt e (Some (dst s')) (result_len s') (of_nat (length b)) t
                       = Some (Done (Inr (), t')) \<and>
                     take (length b) (dst t') = b \<and> result_len t' = of_nat (length b)))"
proof -
  have sb: "secret_bytes sec = map of_char (take (unat (item_len sec)) (item_str sec))"
    using alpha(1) by (simp add: secret_bytes_def)
  have "\<forall>c\<in>set (secret_bytes sec). isalpha c" unfolding sb using alpha(2) by simp
  from shift_tables_alpha [OF this]
  obtain forw bckw where t: "shift_tables k (secret_bytes sec) = Some (forw, bckw)" by blast
  from rotn_customize_ok [where cfg = config_get and mem = mem, OF sec mem t kid key]
  obtain a e h' where run: "rotn_customize mem orig config_get (Some g) h = Done (Inr (a, e), h')"
    by blast
  from rotn_customize_Inr [OF run]
  obtain a0 k0 e1 h1 where "customize_secret mem config_get a0 k0 e1 h1 = Done (Inr (a, e), h')"
    by blast
  from customize_secret_Inr [OF this sec(1,2)]
  obtain forw' bckw' where t': "shift_tables k0 (secret_bytes sec) = Some (forw', bckw')"
    and e: "table (shift_forw e) = forw'" "table (shift_back e) = bckw'" "shift_len e = item_len sec"
    by blast
  from shift_tables_Some [OF t']
  have l: "length forw' = length (secret_bytes sec)" "length bckw' = length (secret_bytes sec)"
    and z: "\<forall>i<length (secret_bytes sec). forw' ! i + bckw' ! i = 0"
    and al: "\<forall>c\<in>set (secret_bytes sec). isalpha c"
    by simp_all
  have n: "length (secret_bytes sec) = unat (item_len sec)"
    using al by (rule secret_bytes_alpha_length)
  have 1: "shift_len e \<noteq> 0" using e(3) sec(2) by simp
  have 2: "length (table (shift_forw e)) = unat (shift_len e)" using e l n by simp
  have 3: "length (table (shift_back e)) = unat (shift_len e)" using e l n by simp
  have 4: "\<forall>i<unat (shift_len e). table (shift_forw e) ! i + table (shift_back e) ! i = 0"
    using e z n by simp
  from cancelling_tables_round_trip [OF 1 2 3 4 len room room', of rnd] run show ?thesis by blast
qed

theorem shift_round_trip_witness:
  "\<exists>a e h'. rotn_customize (\<lambda>_. True) registered
         [''keyid'' \<mapsto> \<lparr>item_str = ''2'', item_len = 1\<rparr>,
          ''secretkey'' \<mapsto> \<lparr>item_str = ''ABC'', item_len = 3\<rparr>] (Some ''2'')
         \<lparr>requests = 0, live = [], errno = EINVAL\<rparr> = Done (Inr (a, e), h') \<and>
     (\<exists>s'. rotn_encrypt (\<lambda>_. 0) e (Some [0x4D, 0x79]) 2 22
              \<lparr>dst = replicate 22 0, result_len = 0, rand_calls = 0, stderr = []\<rparr>
            = Some (Done (Inr (), s')) \<and>
        (\<exists>t'. rotn_decrypt e (Some (dst s')) (result_len s') 2
              \<lparr>dst = replicate 2 0, result_len = 0, rand_calls = 0, stderr = []\<rparr>
            = Some (Done (Inr (), t')) \<and> take 2 (dst t') = [0x4D, 0x79] \<and> result_len t' = 2))"
proof -
  let ?cfg = "[''keyid'' \<mapsto> \<lparr>item_str = ''2'', item_len = 1\<rparr>,
               ''secretkey'' \<mapsto> \<lparr>item_str = ''ABC'', item_len = 3\<rparr>]"
  let ?sec = "\<lparr>item_str = ''ABC'', item_len = 3\<rparr>"
  have 1: "?cfg ''secretkey'' = Some ?sec" by simp
  have 2: "item_len ?sec \<noteq> 0" "item_len ?sec + 1 \<noteq> 0" by simp_all
  have 3: "unat (item_len ?sec) \<le> length (item_str ?sec)" by simp
  have 4: "\<forall>c\<in>set (take (unat (item_len ?sec)) (item_str ?sec)). isalpha (of_char c)"
    by (simp add: isalpha_def isupper_def islower_def)
  have 5: "\<forall>kid. ?cfg ''keyid'' = Some kid \<longrightarrow> item_len kid + 1 \<noteq> 0" by auto
  have 6: "atoi ''2'' = Some 2" by code_simp
  have 7: "\<forall>j. (\<lambda>_. True) j" by simp
  have 8: "length [0x4D, 0x79 :: byte] < 2 ^ 32" by simp
  from shift_round_trip [where config_get = ?cfg and mem = "\<lambda>_. True" and b = "[0x4D, 0x79]"
      and s = "\<lparr>dst = replicate 22 0, result_len = 0, rand_calls = 0, stderr = []\<rparr>"
      and t = "\<lparr>dst = replicate 2 0, result_len = 0, rand_calls = 0, stderr = []\<rparr>"
      and orig = registered and rnd = "\<lambda>_. 0" and h = "\<lparr>requests = 0, live = [], errno = EINVAL\<rparr>",
      OF 1 2 3 4 5 6 _ 7 8]
  show ?thesis by (simp add: numeral_2_eq_2)
qed

text \<open>
  A secret key that holds a byte that is not a letter is always refused: \<open>rotn_customize\<close>
  returns an error code and no structure, whatever the allocator does and whatever the
  key id is.
\<close>

lemma customize_rejects_bad_secret:
  assumes "config_get ''secretkey'' = Some sec"
    and "i < unat (item_len sec)" and "i < length (item_str sec)"
    and "\<not> isalpha (of_char (item_str sec ! i))"
    and "\<forall>kid. config_get ''keyid'' = Some kid \<longrightarrow> item_len kid + 1 \<noteq> 0"
    and "atoi g = Some k"
  shows "\<exists>err h'. rotn_customize mem orig config_get (Some g) h = Done (Inl err, h')"
proof -
  from assms(2) have nz: "item_len sec \<noteq> 0" by (auto simp: unat_gt_0 [symmetric])
  have "item_str sec ! i \<in> set (take (unat (item_len sec)) (item_str sec))"
    using assms(2,3) by (auto simp: in_set_conv_nth intro!: exI [of _ i])
  then have "of_char (item_str sec ! i) \<in> set (secret_bytes sec)"
    by (simp add: secret_bytes_def)
  with assms(4) have "\<exists>c\<in>set (secret_bytes sec). \<not> isalpha c" by blast
  then have "shift_tables k (secret_bytes sec) = None" by (rule shift_tables_None)
  from rotn_customize_bad [where cfg = config_get, OF assms(1) nz this assms(5,6)]
  show ?thesis .
qed

lemma customize_rejects_bad_secret_example:
  "\<exists>err h'. rotn_customize (\<lambda>_. True) registered
       [''keyid'' \<mapsto> \<lparr>item_str = ''2'', item_len = 1\<rparr>,
        ''secretkey'' \<mapsto> \<lparr>item_str = ''A1C'', item_len = 3\<rparr>] (Some ''2'')
       \<lparr>requests = 0, live = [], errno = EINVAL\<rparr> = Done (Inl err, h')"
proof -
  let ?cfg = "[''keyid'' \<mapsto> \<lparr>item_str = ''2'', item_len = 1\<rparr>,
               ''secretkey'' \<mapsto> \<lparr>item_str = ''A1C'', item_len = 3\<rparr>]"
  let ?sec = "\<lparr>item_str = ''A1C'', item_len = 3\<rparr>"
  have 1: "?cfg ''secretkey'' = Some ?sec" by simp
  have 2: "1 < unat (item_len ?sec)" "1 < length (item_str ?sec)" by simp_all
  have 3: "\<not> isalpha (of_char (item_str ?sec ! 1))"
    by (simp add: isalpha_def isupper_def islower_def)
  have 4: "\<forall>kid. ?cfg ''keyid'' = Some kid \<longrightarrow> item_len kid + 1 \<noteq> 0" by auto
  have 5: "atoi ''2'' = Some 2" by code_simp
  from customize_rejects_bad_secret [where config_get = ?cfg, OF 1 2 3 4 5]
  show ?thesis .
qed

text \<open>
  C6. The code does not refuse a key id that is negative or not a number. The test
  \<open>atoi (keyid.str) < 0\<close> runs before \<open>config_get\<close> has filled the local
  \<open>keyid\<close>, so the configured key id is never examined: with the key id "-1", and
  with the key id "abc", and the uninitialized item leading to the string "7",
  \<open>rotn_customize\<close> returns a structure with \<open>rot_N = 7\<close>.
\<close>

theorem configured_keyid_not_examined:
  "rotn_customize (\<lambda>_. True) registered [''keyid'' \<mapsto> \<lparr>item_str = ''-1'', item_len = 2\<rparr>]
       (Some ''7'') \<lparr>requests = 0, live = [], errno = EINVAL\<rparr> =
     Done (Inr (0, \<lparr>rot_N = 7, keyid = Some (1, ''-1''), secretkey = None,
                     shift_forw = None, shift_back = None, shift_len = 0\<rparr>),
           \<lparr>requests = 2, live = [1, 0], errno = EINVAL\<rparr>) \<and>
   rotn_customize (\<lambda>_. True) registered [''keyid'' \<mapsto> \<lparr>item_str = ''abc'', item_len = 3\<rparr>]
       (Some ''7'') \<lparr>requests = 0, live = [], errno = EINVAL\<rparr> =
     Done (Inr (0, \<lparr>rot_N = 7, keyid = Some (1, ''abc''), secretkey = None,
                     shift_forw = None, shift_back = None, shift_len = 0\<rparr>),
           \<lparr>requests = 2, live = [1, 0], errno = EINVAL\<rparr>)"
  by code_simp

text \<open>
  C9, as the code has it. Starting from the registered structure, whose table pointers
  are NULL, every failure of \<open>rotn_customize\<close> leaves the set of live blocks as it
  found it. When the structure itself was allocated the error code is \<open>EPERM\<close>,
  whatever was recorded in \<open>ret\<close>; when its allocation fails the function returns
  \<open>errno\<close>, which the allocator has set to \<open>ENOMEM\<close>.
\<close>

theorem customize_failure_code:
  assumes "rotn_customize mem orig config_get stack_str h = Done (Inl err, h')"
    and "shift_forw orig = None" and "shift_back orig = None"
  shows "(if mem (requests h) then err = EPERM else err = ENOMEM) \<and> live h' = live h"
  using assms by (rule rotn_customize_Inl)

theorem customize_failure_code_witness:
  "rotn_customize (\<lambda>k. k < 3) registered
       [''keyid'' \<mapsto> \<lparr>item_str = ''2'', item_len = 1\<rparr>,
        ''secretkey'' \<mapsto> \<lparr>item_str = ''ABC'', item_len = 3\<rparr>] (Some ''2'')
       \<lparr>requests = 0, live = [], errno = EINVAL\<rparr> =
     Done (Inl EPERM, \<lparr>requests = 4, live = [], errno = ENOMEM\<rparr>) \<and>
   live \<lparr>requests = 4, live = [], errno = ENOMEM\<rparr> = live \<lparr>requests = 0, live = [], errno = EINVAL\<rparr>"
proof -
  let ?cfg = "[''keyid'' \<mapsto> \<lparr>item_str = ''2'', item_len = 1\<rparr>,
               ''secretkey'' \<mapsto> \<lparr>item_str = ''ABC'', item_len = 3\<rparr>]"
  have run: "rotn_customize (\<lambda>k. k < 3) registered ?cfg (Some ''2'') \<lparr>requests = 0, live = [], errno = EINVAL\<rparr>
      = Done (Inl EPERM, \<lparr>requests = 4, live = [], errno = ENOMEM\<rparr>)"
    by code_simp
  have t: "shift_forw registered = None" "shift_back registered = None" by (simp_all add: registered_def)
  from customize_failure_code [OF run t]
  have "live \<lparr>requests = 4, live = [], errno = ENOMEM\<rparr> = live \<lparr>requests = 0, live = [], errno = EINVAL\<rparr>"
    by blast
  with run show ?thesis by blast
qed

text \<open>
  C9 as stated fails when \<open>calloc\<close> fails: the function returns \<open>errno\<close>,
  not \<open>EPERM\<close>.
\<close>

theorem calloc_failure_counterexample:
  "rotn_customize (\<lambda>_. False) registered Map.empty (Some ''0'') \<lparr>requests = 0, live = [], errno = EINVAL\<rparr> =
     Done (Inl ENOMEM, \<lparr>requests = 1, live = [], errno = ENOMEM\<rparr>)"
  by code_simp

text \<open>
  C7. With key id "2" and secret key "ABC" (and \<open>atoi\<close> reading the 2) the tables
  are 2, 3, 4 and their negations, and encrypting "MySecret" puts "O|Wgfvgw" after the
  header: \<open>do_shift\<close> adds 3 to the byte of "y" without wrapping inside the
  alphabet, where the comment at the head of the source announces "ObWgfvgw".
\<close>

theorem vigenere_scenario:
  "rotn_customize (\<lambda>_. True) registered
       [''keyid'' \<mapsto> \<lparr>item_str = ''2'', item_len = 1\<rparr>,
        ''secretkey'' \<mapsto> \<lparr>item_str = ''ABC'', item_len = 3\<rparr>] (Some ''2'')
       \<lparr>requests = 0, live = [], errno = EINVAL\<rparr> =
     Done (Inr (0, \<lparr>rot_N = 2, keyid = Some (1, ''2''), secretkey = Some (2, ''ABC''),
                     shift_forw = Some (3, [2, 3, 4]), shift_back = Some (4, [254, 253, 252]),
                     shift_len = 3\<rparr>),
           \<lparr>requests = 5, live = [4, 3, 2, 1, 0], errno = EINVAL\<rparr>) \<and>
   rotn_encrypt (\<lambda>_. 0)
       \<lparr>rot_N = 2, keyid = Some (1, ''2''), secretkey = Some (2, ''ABC''),
         shift_forw = Some (3, [2, 3, 4]), shift_back = Some (4, [254, 253, 252]), shift_len = 3\<rparr>
       (Some (map of_char ''MySecret'')) 8 28
       \<lparr>dst = replicate 28 0, result_len = 0, rand_calls = 0, stderr = []\<rparr> =
     Some (Done (Inr (), \<lparr>dst = replicate 20 0 @ map of_char ''O|Wgfvgw'',
                          result_len = 28, rand_calls = 20, stderr = []\<rparr>)) \<and>
   map of_char ''O|Wgfvgw'' \<noteq> (map of_char ''ObWgfvgw'' :: byte list)"
  by code_simp

end
